theory Spec2Isabelle
  imports
    Main
    "HOL-Library.AList"
    "HOL-Library.Char_ord"
    "HOL-Library.List_Lexorder"
begin

section \<open>Import-graph analysis: \<open>findMissing\<close> (fetch.go, lines 219--285)\<close>

subsection \<open>Data\<close>

text \<open>
  \<open>vendor.Pkg\<close> embeds a \<open>build.Package\<close>; \<open>findMissing\<close> reads its \<open>ImportPath\<close>
  and \<open>Imports\<close> and writes its \<open>Name\<close> (for the fake cgo package).  A
  \<open>vendor.Depset\<close> carries a map \<open>Pkgs\<close> from a key to a package.  Both types are
  declared in package \<open>gbvendor\<close>; only the fields that fetch.go touches are kept.
  Go maps that are iterated are association lists: the list order is the (unspecified)
  iteration order, so a statement about every list covers every iteration order.
  Pointers are taken to be non-nil, as \<open>vendor.LoadPaths\<close> produces them.
\<close>

record Pkg =
  Name :: string
  ImportPath :: string
  Imports :: "string list"

record Depset =
  Root :: string
  Prefix :: string
  Pkgs :: "(string \<times> Pkg) list"

type_synonym depsets = "(string \<times> Depset) list"

text \<open>
  The three maps of type \<open>map[string]bool\<close> that the closures of \<open>findMissing\<close> share.
  Only the value \<open>true\<close> is ever stored in them, so each one is the set of its keys;
  \<open>len\<close> is \<open>card\<close>, \<open>delete\<close> is set difference.
\<close>

record walk =
  missing :: "string set"
  checked :: "string set"
  stk :: "string set"

text \<open>The two panics of \<open>findMissing\<close>, with the values their messages print.\<close>

datatype panic =
    ImportLoop string "string set"
  | ImpossiblePop string "string set"

subsection \<open>The closures \<open>push\<close>, \<open>pop\<close> and \<open>fn\<close>\<close>

definition push :: "string \<Rightarrow> walk \<Rightarrow> panic + walk" where
  "push v s =
     (if v \<in> stk s then Inl (ImportLoop v (stk s))
      else Inr (s\<lparr>stk := insert v (stk s)\<rparr>))"

definition pop :: "string \<Rightarrow> walk \<Rightarrow> panic + walk" where
  "pop v s =
     (if v \<notin> stk s then Inl (ImpossiblePop v (stk s))
      else Inr (s\<lparr>stk := stk s - {v}\<rparr>))"

text \<open>
  \<open>fn\<close> is the recursive closure (lines 253--280); \<open>fn_range\<close> is its loop
  \<open>for _, i := range p.Imports\<close> over the rest of the import list.  \<open>imports\<close> is the
  combined table, an association list read with \<open>map_of\<close>.
\<close>

function fn :: "(string \<times> Pkg) list \<Rightarrow> string \<Rightarrow> walk \<Rightarrow> panic + walk"
  and fn_range :: "(string \<times> Pkg) list \<Rightarrow> string \<Rightarrow> string list \<Rightarrow> walk \<Rightarrow> panic + walk"
where
  "fn imports importpath s =
     (case map_of imports importpath of
        None \<Rightarrow> Inr (s\<lparr>missing := insert importpath (missing s)\<rparr>)
      | Some p \<Rightarrow>
          if importpath \<in> checked s then Inr s
          else
            (case push importpath s of
               Inl e \<Rightarrow> Inl e
             | Inr s1 \<Rightarrow>
                 (case fn_range imports importpath (Imports p) s1 of
                    Inl e \<Rightarrow> Inl e
                  | Inr s2 \<Rightarrow>
                      pop importpath
                        (if card (missing s2) = card (missing s)
                         then s2\<lparr>checked := insert importpath (checked s2)\<rparr>
                         else s2))))"
| "fn_range imports importpath [] s = Inr s"
| "fn_range imports importpath (i # rest) s =
     (if i = importpath then fn_range imports importpath rest s
      else
        (case fn imports i s of
           Inl e \<Rightarrow> Inl e
         | Inr s' \<Rightarrow> fn_range imports importpath rest s'))"
  by pat_completeness auto

lemma push_Inr: "push v s = Inr s' \<longleftrightarrow> v \<notin> stk s \<and> s' = s\<lparr>stk := insert v (stk s)\<rparr>"
  by (auto simp: push_def)

lemma pop_Inr: "pop v s = Inr s' \<longleftrightarrow> v \<in> stk s \<and> s' = s\<lparr>stk := stk s - {v}\<rparr>"
  by (auto simp: pop_def)

lemma fn_dom_stk:
  "fn_fn_range_dom (Inl (im, x, s)) \<Longrightarrow> fn im x s = Inr s' \<Longrightarrow> stk s' = stk s"
  "fn_fn_range_dom (Inr (im, x, ys, s)) \<Longrightarrow> fn_range im x ys s = Inr s' \<Longrightarrow> stk s' = stk s"
proof (induction im x s and im x ys s arbitrary: s' and s' rule: fn_fn_range.pinduct)
  case (1 im importpath s)
  show ?case
  proof (cases "map_of im importpath")
    case None
    with "1.prems" "1.hyps" show ?thesis by (auto simp: fn.psimps)
  next
    case (Some p)
    show ?thesis
    proof (cases "importpath \<in> checked s")
      case True
      with Some "1.prems" "1.hyps" show ?thesis by (simp add: fn.psimps)
    next
      case False
      with Some "1.prems" "1.hyps" obtain s1 s2 where
        a: "push importpath s = Inr s1" and
        b: "fn_range im importpath (Imports p) s1 = Inr s2" and
        c: "pop importpath
              (if card (missing s2) = card (missing s)
               then s2\<lparr>checked := insert importpath (checked s2)\<rparr> else s2) = Inr s'"
        by (simp add: fn.psimps split: sum.splits)
      from "1.IH"[OF Some False a b] have "stk s2 = stk s1" .
      with a c show ?thesis by (auto simp: push_Inr pop_Inr split: if_splits)
    qed
  qed
next
  case (2 im importpath s)
  then show ?case by (simp add: fn_range.psimps)
next
  case (3 im importpath i rest s)
  from "3.prems" "3.hyps" show ?case
    by (auto simp: fn_range.psimps split: if_splits sum.splits dest: "3.IH")
qed

termination fn
proof (relation "inv_image (less_than <*lex*> less_than)
    (\<lambda>x. case x of
       Inl (im, x, s) \<Rightarrow> (card (fst ` set im - stk s), 0)
     | Inr (im, x, ys, s) \<Rightarrow> (card (fst ` set im - stk s), Suc (length ys)))", goal_cases)
  case 1
  show ?case by (intro wf_inv_image wf_lex_prod wf_less_than)
next
  case (2 im importpath s p s1)
  from 2 have "importpath \<in> fst ` set im"
    by (metis map_of_eq_None_iff option.distinct(1))
  moreover from 2 have "importpath \<notin> stk s" "stk s1 = insert importpath (stk s)"
    by (auto simp: push_Inr)
  ultimately have "card (fst ` set im - stk s1) < card (fst ` set im - stk s)"
    by (intro psubset_card_mono) auto
  then show ?case by simp
next
  case 3
  then show ?case by simp
next
  case 4
  then show ?case by simp
next
  case (5 im importpath i rest s s')
  then have "stk s' = stk s" by (auto dest: fn_dom_stk(1))
  then show ?case by simp
qed

declare fn.simps [simp del]

subsection \<open>\<open>findMissing\<close>\<close>

text \<open>
  The fake package that line 229 stores under \<open>"C"\<close>: only \<open>Name\<close> is set, every
  other field of the \<open>build.Package\<close> has its zero value.
\<close>

definition fakeC :: Pkg where
  "fakeC = \<lparr>Name = ''C'', ImportPath = [], Imports = []\<rparr>"

text \<open>
  Lines 221--234: every package of every depset is stored under its own \<open>ImportPath\<close>
  (a later store replaces an earlier one), then \<open>"C"\<close> is stored.
\<close>

definition build_imports :: "depsets \<Rightarrow> (string \<times> Pkg) list" where
  "build_imports dsm =
     AList.update ''C'' fakeC
       (fold (\<lambda>(_, s). fold (\<lambda>(_, p). AList.update (ImportPath p) p) (Pkgs s)) dsm [])"

text \<open>Lines 281--283: \<open>for _, pkg := range pkgs { fn(pkg.ImportPath) }\<close>.\<close>

fun fn_targets :: "(string \<times> Pkg) list \<Rightarrow> Pkg list \<Rightarrow> walk \<Rightarrow> panic + walk" where
  "fn_targets imports [] s = Inr s"
| "fn_targets imports (pkg # rest) s =
     (case fn imports (ImportPath pkg) s of
        Inl e \<Rightarrow> Inl e
      | Inr s' \<Rightarrow> fn_targets imports rest s')"

definition findMissing :: "Pkg list \<Rightarrow> depsets \<Rightarrow> panic + string set" where
  "findMissing pkgs dsm =
     (case fn_targets (build_imports dsm) pkgs \<lparr>missing = {}, checked = {}, stk = {}\<rparr> of
        Inl e \<Rightarrow> Inl e
      | Inr s \<Rightarrow> Inr (missing s))"

subsection \<open>The traversal without the memo\<close>

text \<open>
  The reference traversal of the memoization property: the same walk with the
  \<open>checked\<close> table neither read nor written, run for one target from a fresh state.
\<close>

function fn_plain :: "(string \<times> Pkg) list \<Rightarrow> string \<Rightarrow> walk \<Rightarrow> panic + walk"
  and fn_plain_range ::
    "(string \<times> Pkg) list \<Rightarrow> string \<Rightarrow> string list \<Rightarrow> walk \<Rightarrow> panic + walk"
where
  "fn_plain imports importpath s =
     (case map_of imports importpath of
        None \<Rightarrow> Inr (s\<lparr>missing := insert importpath (missing s)\<rparr>)
      | Some p \<Rightarrow>
          (case push importpath s of
             Inl e \<Rightarrow> Inl e
           | Inr s1 \<Rightarrow>
               (case fn_plain_range imports importpath (Imports p) s1 of
                  Inl e \<Rightarrow> Inl e
                | Inr s2 \<Rightarrow> pop importpath s2)))"
| "fn_plain_range imports importpath [] s = Inr s"
| "fn_plain_range imports importpath (i # rest) s =
     (if i = importpath then fn_plain_range imports importpath rest s
      else
        (case fn_plain imports i s of
           Inl e \<Rightarrow> Inl e
         | Inr s' \<Rightarrow> fn_plain_range imports importpath rest s'))"
  by pat_completeness auto

lemma fn_plain_dom_stk:
  "fn_plain_fn_plain_range_dom (Inl (im, x, s)) \<Longrightarrow> fn_plain im x s = Inr s'
     \<Longrightarrow> stk s' = stk s"
  "fn_plain_fn_plain_range_dom (Inr (im, x, ys, s)) \<Longrightarrow> fn_plain_range im x ys s = Inr s'
     \<Longrightarrow> stk s' = stk s"
proof (induction im x s and im x ys s arbitrary: s' and s'
    rule: fn_plain_fn_plain_range.pinduct)
  case (1 im importpath s)
  show ?case
  proof (cases "map_of im importpath")
    case None
    with "1.prems" "1.hyps" show ?thesis by (auto simp: fn_plain.psimps)
  next
    case (Some p)
    with "1.prems" "1.hyps" obtain s1 s2 where
      a: "push importpath s = Inr s1" and
      b: "fn_plain_range im importpath (Imports p) s1 = Inr s2" and
      c: "pop importpath s2 = Inr s'"
      by (simp add: fn_plain.psimps split: sum.splits)
    from "1.IH"[OF Some a b] have "stk s2 = stk s1" .
    with a c show ?thesis by (auto simp: push_Inr pop_Inr)
  qed
next
  case (2 im importpath s)
  then show ?case by (simp add: fn_plain_range.psimps)
next
  case (3 im importpath i rest s)
  from "3.prems" "3.hyps" show ?case
    by (auto simp: fn_plain_range.psimps split: if_splits sum.splits dest: "3.IH")
qed

termination fn_plain
proof (relation "inv_image (less_than <*lex*> less_than)
    (\<lambda>x. case x of
       Inl (im, x, s) \<Rightarrow> (card (fst ` set im - stk s), 0)
     | Inr (im, x, ys, s) \<Rightarrow> (card (fst ` set im - stk s), Suc (length ys)))", goal_cases)
  case 1
  show ?case by (intro wf_inv_image wf_lex_prod wf_less_than)
next
  case (2 im importpath s p s1)
  from 2 have "importpath \<in> fst ` set im"
    by (metis map_of_eq_None_iff option.distinct(1))
  moreover from 2 have "importpath \<notin> stk s" "stk s1 = insert importpath (stk s)"
    by (auto simp: push_Inr)
  ultimately have "card (fst ` set im - stk s1) < card (fst ` set im - stk s)"
    by (intro psubset_card_mono) auto
  then show ?case by simp
next
  case 3
  then show ?case by simp
next
  case 4
  then show ?case by simp
next
  case (5 im importpath i rest s s')
  then have "stk s' = stk s" by (auto dest: fn_plain_dom_stk(1))
  then show ?case by simp
qed

declare fn_plain.simps [simp del]

definition findMissing_plain :: "Pkg \<Rightarrow> depsets \<Rightarrow> panic + string set" where
  "findMissing_plain pkg dsm =
     (case fn_plain (build_imports dsm) (ImportPath pkg)
             \<lparr>missing = {}, checked = {}, stk = {}\<rparr> of
        Inl e \<Rightarrow> Inl e
      | Inr s \<Rightarrow> Inr (missing s))"

section \<open>The fetch command: \<open>fetch\<close> (fetch.go, lines 80--201)\<close>

subsection \<open>Manifest\<close>

text \<open>
  \<open>vendor.Dependency\<close> with the five fields that line 116 fills, and \<open>vendor.Manifest\<close>
  with the list that line 165 ranges over.
\<close>

record Dependency =
  Importpath :: string
  Repository :: string
  Revision :: string
  Branch :: string
  Path :: string

record Manifest =
  Dependencies :: "Dependency list"

text \<open>
  Modelled from the spec: \<open>HasImportpath\<close> is a method of \<open>vendor.Manifest\<close> in package
  \<open>gbvendor\<close>, which is not among the sources.  Section 4.1 of the specification:
  \<open>HasImportPath(Manifest, path) -> bool\<close>, true when a Dependency of the manifest has
  that import path.
\<close>

definition HasImportpath :: "Manifest \<Rightarrow> string \<Rightarrow> bool" where
  "HasImportpath m path \<longleftrightarrow> path \<in> Importpath ` set (Dependencies m)"

text \<open>
  Modelled from the spec: \<open>AddDependency\<close> is a method of \<open>vendor.Manifest\<close> in package
  \<open>gbvendor\<close>, which is not among the sources.  Section 4.1 of the specification: it
  fails with \<open>DuplicateImportError\<close> (here \<open>None\<close>) if the import path is already
  present, and otherwise adds the Dependency to the ordered collection.
\<close>

definition AddDependency :: "Manifest \<Rightarrow> Dependency \<Rightarrow> Manifest option" where
  "AddDependency m dep =
     (if HasImportpath m (Importpath dep) then None
      else Some (m\<lparr>Dependencies := Dependencies m @ [dep]\<rparr>))"

subsection \<open>Collaborators and the world they act on\<close>

text \<open>
  The interfaces \<open>vendor.WorkingCopy\<close> and \<open>vendor.RemoteRepo\<close>.  \<open>fetch\<close> calls each
  method of an object at most once, so an object is the record of what its methods
  return: \<open>Inl\<close> (or \<open>Some\<close> for a method that returns only an error) carries the
  error.
\<close>

record WorkingCopy =
  Dir :: string
  wc_Revision :: "string + string"
  wc_Branch :: "string + string"
  Destroy :: "string option"

record RemoteRepo =
  URL :: string
  Checkout :: "string \<Rightarrow> string \<Rightarrow> string \<Rightarrow> string + WorkingCopy"

text \<open>Every call that \<open>fetch\<close> makes to a collaborator, with its arguments.\<close>

datatype call =
    ReadManifest_call
  | DeduceRemoteRepo_call string bool
  | Checkout_call string string string string
  | Revision_call string
  | Branch_call string
  | Copypath_call string string
  | WriteManifest_call Manifest
  | Destroy_call string
  | LoadPaths_call "(string \<times> string) list"
  | Printf string

text \<open>
  What a run of \<open>fetch\<close> reads and changes: the package-level flag variables of lines
  17--26 that it uses, the manifest file (what \<open>vendor.ReadManifest(manifestFile())\<close>
  returns: an error or the stored manifest), the vendor tree (the copies made, as pairs
  of destination and source, newest first), and the log \<open>calls\<close> of collaborator calls
  in the order they were made.
\<close>

record world =
  branch :: string
  tag :: string
  revision :: string
  insecure :: bool
  manifest_file :: "string + Manifest"
  vendor_tree :: "(string \<times> string) list"
  calls :: "call list"

text \<open>
  The collaborators outside fetch.go, as parameters: repository deduction, \<open>url.Parse\<close>
  (host and path of the parsed URL), \<open>fileutils.Copypath\<close>, \<open>vendor.WriteManifest\<close>,
  \<open>vendor.LoadPaths\<close>, and the path helpers.  The ones whose outcome may depend on what
  happened before take the world at the time of the call.  A failed \<open>Copypath\<close> or
  \<open>WriteManifest\<close> is taken to leave the vendor tree or manifest file as recorded
  here unchanged.
\<close>

record env =
  DeduceRemoteRepo :: "world \<Rightarrow> string \<Rightarrow> bool \<Rightarrow> string + (RemoteRepo \<times> string)"
  url_Parse :: "string \<Rightarrow> string + (string \<times> string)"
  Copypath :: "world \<Rightarrow> string \<Rightarrow> string \<Rightarrow> string option"
  WriteManifest :: "world \<Rightarrow> Manifest \<Rightarrow> string option"
  LoadPaths :: "world \<Rightarrow> (string \<times> string) list \<Rightarrow> string + depsets"
  vendorDir :: "bool \<Rightarrow> string"
  GOROOT :: string
  Join :: "string \<Rightarrow> string \<Rightarrow> string"
  FromSlash :: "string \<Rightarrow> string"

text \<open>
  The error values \<open>fetch\<close> can return, tagged with the statement that produced them;
  the last two are the panics of \<open>stripscheme\<close> and \<open>findMissing\<close>, which end the
  command.  \<open>AlreadyErr\<close> is the sentinel of line 78; no collaborator can return it.
\<close>

datatype error =
    AlreadyErr
  | CouldNotLoadManifest string
  | DeduceRemoteRepoErr string
  | CheckoutErr string
  | RevisionErr string
  | BranchErr string
  | AddDependencyErr
  | CopypathErr string
  | WriteManifestErr string
  | DestroyErr string
  | ReadManifestErr string
  | LoadPathsErr string
  | UnableToLocateDepset string
  | StripschemePanic string
  | FindMissingPanic panic

definition call :: "call \<Rightarrow> world \<Rightarrow> world" where
  "call c w = w\<lparr>calls := calls w @ [c]\<rparr>"

text \<open>Lines 288--294: \<open>Inl\<close> is the panic on a parse error.\<close>

definition stripscheme :: "env \<Rightarrow> string \<Rightarrow> string + string" where
  "stripscheme env path =
     (case url_Parse env path of
        Inl err \<Rightarrow> Inl err
      | Inr (host, upath) \<Rightarrow> Inr (host @ upath))"

subsection \<open>One fetch without recursion (lines 81--141)\<close>

text \<open>
  Lines 81--98: read the manifest, deduce the repository, strip the scheme, and stop
  with the sentinel if the stripped path is in the manifest.  On success the values of
  \<open>m\<close>, \<open>repo\<close>, \<open>extra\<close> and the stripped \<open>path\<close> go on to the next lines.
\<close>

definition fetch_resolve ::
  "env \<Rightarrow> string \<Rightarrow> world \<Rightarrow> (error + Manifest \<times> RemoteRepo \<times> string \<times> string) \<times> world" where
  "fetch_resolve env path w0 =
     (let w1 = call ReadManifest_call w0 in
      case manifest_file w1 of
        Inl err \<Rightarrow> (Inl (CouldNotLoadManifest err), w1)
      | Inr m \<Rightarrow>
          (let w2 = call (DeduceRemoteRepo_call path (insecure w1)) w1 in
           case DeduceRemoteRepo env w1 path (insecure w1) of
             Inl err \<Rightarrow> (Inl (DeduceRemoteRepoErr err), w2)
           | Inr (repo, extra) \<Rightarrow>
               (case stripscheme env path of
                  Inl err \<Rightarrow> (Inl (StripschemePanic err), w2)
                | Inr path' \<Rightarrow>
                    if HasImportpath m path'
                    then (Inl AlreadyErr, call (Printf (path' @ '' is already vendored'')) w2)
                    else (Inr (m, repo, extra, path'), w2))))"

text \<open>
  Lines 100--141.  Line 100 reads the package-level \<open>branch\<close>, \<open>tag\<close> and \<open>revision\<close>.
  Line 111, \<open>branch, err := wc.Branch()\<close>, declares a new local \<open>branch\<close> (here
  \<open>branch'\<close>; \<open>rev'\<close> is the local \<open>rev\<close>): \<open>err\<close> is already declared in the function body, the package-level
  \<open>branch\<close> is not, so the short declaration redeclares only \<open>err\<close>.  Every return
  before line 139 leaves without a call of \<open>wc.Destroy\<close>.
\<close>

definition fetch_vendor ::
  "env \<Rightarrow> bool \<Rightarrow> Manifest \<Rightarrow> RemoteRepo \<Rightarrow> string \<Rightarrow> string \<Rightarrow> world \<Rightarrow> (error + unit) \<times> world" where
  "fetch_vendor env global m repo extra path w0 =
     (let w1 = call (Checkout_call (URL repo) (branch w0) (tag w0) (revision w0)) w0 in
      case Checkout repo (branch w0) (tag w0) (revision w0) of
        Inl err \<Rightarrow> (Inl (CheckoutErr err), w1)
      | Inr wc \<Rightarrow>
      (let w2 = call (Revision_call (Dir wc)) w1 in
       case wc_Revision wc of
         Inl err \<Rightarrow> (Inl (RevisionErr err), w2)
       | Inr rev' \<Rightarrow>
       (let w3 = call (Branch_call (Dir wc)) w2 in
        case wc_Branch wc of
          Inl err \<Rightarrow> (Inl (BranchErr err), w3)
        | Inr branch' \<Rightarrow>
        (let dep = \<lparr>Importpath = path, Repository = URL repo, Revision = rev',
                     Branch = branch', Path = extra\<rparr> in
         case AddDependency m dep of
           None \<Rightarrow> (Inl AddDependencyErr, w3)
         | Some m' \<Rightarrow>
         (let dst = Join env (vendorDir env global) (Importpath dep);
              src = Join env (Dir wc) (Path dep);
              w4 = call (Copypath_call dst src) w3 in
          case Copypath env w3 dst src of
            Some err \<Rightarrow> (Inl (CopypathErr err), w4)
          | None \<Rightarrow>
          (let w5 = w4\<lparr>vendor_tree := (dst, src) # vendor_tree w4\<rparr>;
               w6 = call (WriteManifest_call m') w5 in
           case WriteManifest env w5 m' of
             Some err \<Rightarrow> (Inl (WriteManifestErr err), w6)
           | None \<Rightarrow>
           (let w7 = w6\<lparr>manifest_file := Inr m'\<rparr>;
                w8 = call (Destroy_call (Dir wc)) w7 in
            case Destroy wc of
              Some err \<Rightarrow> (Inl (DestroyErr err), w8)
            | None \<Rightarrow> (Inr (), w8))))))))"

text \<open>Lines 81--141 together; on success the stripped \<open>path\<close> is returned.\<close>

definition fetch_step :: "env \<Rightarrow> string \<Rightarrow> bool \<Rightarrow> world \<Rightarrow> (error + string) \<times> world" where
  "fetch_step env path global w =
     (case fetch_resolve env path w of
        (Inl err, w') \<Rightarrow> (Inl err, w')
      | (Inr (m, repo, extra, path'), w') \<Rightarrow>
          (case fetch_vendor env global m repo extra path' w' of
             (Inl err, w'') \<Rightarrow> (Inl err, w'')
           | (Inr _, w'') \<Rightarrow> (Inr path', w'')))"

subsection \<open>The recursive fetch (lines 143--201)\<close>

text \<open>
  \<open>keys\<close> (lines 203--209) lists the keys of \<open>missing\<close> in map-iteration order, which Go
  leaves unspecified, and \<open>sort.Strings\<close> sorts that slice in increasing byte-wise
  lexicographic order.  The keys are distinct, so the sorted slice is the ascending
  list of the set whatever the iteration order was.  The order on \<open>string\<close> is the
  lexicographic order of lists over the order of characters by their code.
\<close>

definition sorted_keys :: "string set \<Rightarrow> string list" where
  "sorted_keys m = sorted_list_of_set m"

text \<open>Lines 211--217: the values of the map \<open>is.Pkgs\<close>, in iteration order.\<close>

definition pkgs :: "(string \<times> Pkg) list \<Rightarrow> Pkg list" where
  "pkgs m = map snd m"

text \<open>
  Lines 156--167: the slice \<open>paths\<close> of pairs of \<open>Root\<close> and \<open>Prefix\<close>, the standard
  library first, then one pair for each dependency of the manifest just read.
\<close>

definition roots :: "env \<Rightarrow> bool \<Rightarrow> Manifest \<Rightarrow> (string \<times> string) list" where
  "roots env global m =
     (Join env (GOROOT env) ''src'', []) #
     map (\<lambda>d. (Join env (vendorDir env global) (FromSlash env (Importpath d)),
                FromSlash env (Importpath d))) (Dependencies m)"

text \<open>
  \<open>fetch\<close> and its loop \<open>ForLoop\<close>.  The loop has no bound of its own, so it takes
  fuel: \<open>None\<close> is a run that has not returned after that many iterations.  The
  assignments of lines 149--151 set the package-level \<open>tag\<close> and \<open>revision\<close>; the
  \<open>branch\<close> they set is the local one of line 111, so the package-level \<open>branch\<close>
  keeps its value.  The call \<open>fetch(pkg, false, global)\<close> of line 191 is the call of
  \<open>fetch\<close> with \<open>recurse\<close> false; \<open>done = true\<close> and \<open>break ForLoop\<close> both leave the loop
  for the \<open>return nil\<close> of line 200.
\<close>

fun fetch :: "nat \<Rightarrow> env \<Rightarrow> string \<Rightarrow> bool \<Rightarrow> bool \<Rightarrow> world \<Rightarrow> ((error + unit) \<times> world) option"
  and fetch_loop :: "nat \<Rightarrow> env \<Rightarrow> string \<Rightarrow> bool \<Rightarrow> world \<Rightarrow> ((error + unit) \<times> world) option"
where
  "fetch fuel env path recurse global w =
     (case fetch_step env path global w of
        (Inl err, w') \<Rightarrow> Some (Inl err, w')
      | (Inr path', w') \<Rightarrow>
          if \<not> recurse then Some (Inr (), w')
          else fetch_loop fuel env path' global (w'\<lparr>tag := [], revision := []\<rparr>))"
| "fetch_loop 0 env path global w0 = None"
| "fetch_loop (Suc fuel) env path global w0 =
     (let w1 = call ReadManifest_call w0 in
      case manifest_file w1 of
        Inl err \<Rightarrow> Some (Inl (ReadManifestErr err), w1)
      | Inr m \<Rightarrow>
      (let paths = roots env global m;
           w2 = call (LoadPaths_call paths) w1 in
       case LoadPaths env w1 paths of
         Inl err \<Rightarrow> Some (Inl (LoadPathsErr err), w2)
       | Inr dsm \<Rightarrow>
       (case map_of dsm (Join env (vendorDir env global) path) of
          None \<Rightarrow> Some (Inl (UnableToLocateDepset path), w2)
        | Some ds \<Rightarrow>
        (case findMissing (pkgs (Pkgs ds)) dsm of
           Inl p \<Rightarrow> Some (Inl (FindMissingPanic p), w2)
         | Inr miss \<Rightarrow>
             if card miss = 0 then Some (Inr (), w2)
             else
               (let keys = sorted_keys miss;
                    pkg = keys ! 0;
                    w3 = call (Printf (''fetching recursive dependency '' @ pkg)) w2 in
                case fetch fuel env pkg False global w3 of
                  None \<Rightarrow> None
                | Some (Inl err, w4) \<Rightarrow>
                    if err = AlreadyErr then Some (Inr (), w4) else Some (Inl err, w4)
                | Some (Inr _, w4) \<Rightarrow> fetch_loop fuel env path global w4)))))"

declare fetch.simps [simp del] fetch_loop.simps [simp del]

section \<open>A test double for the collaborators\<close>

text \<open>
  Collaborators that always succeed, for evaluating \<open>fetch\<close>: every import path
  resolves to a repository of its own, \<open>url.Parse\<close> finds no scheme, and \<open>LoadPaths\<close>
  finds under the root of \<open>x\<close> a package that imports \<open>zzz/pkg\<close> and \<open>aaa/pkg\<close>, which
  import nothing.  The command line of \<open>demo_world\<close> gave \<open>-branch dev -tag v1.0\<close>; the
  manifest is empty.  In \<open>vendored_world\<close> the path \<open>x\<close> is already vendored.  The
  variants \<open>copy_fails\<close>, \<open>write_fails\<close> and \<open>unresolvable\<close> make one collaborator fail.
\<close>

definition join :: "string \<Rightarrow> string \<Rightarrow> string" where
  "join a b = (if b = [] then a else a @ ''/'' @ b)"

definition demo_repo :: "string \<Rightarrow> RemoteRepo" where
  "demo_repo p = \<lparr>URL = ''https://'' @ p,
     Checkout = (\<lambda>b t r. Inr \<lparr>Dir = ''/tmp/'' @ p, wc_Revision = Inr ''abc123'',
        wc_Branch = Inr (if b = [] then ''master'' else b), Destroy = None\<rparr>)\<rparr>"

definition demo_tree :: "string \<times> string \<Rightarrow> string \<times> Depset" where
  "demo_tree = (\<lambda>(root, prefix). (root, \<lparr>Root = root, Prefix = prefix, Pkgs =
     (if prefix = ''x'' then
        [(''x'', \<lparr>Name = ''x'', ImportPath = ''x'', Imports = [''zzz/pkg'', ''aaa/pkg'']\<rparr>)]
      else if prefix = ''zzz/pkg'' then
        [(''zzz/pkg'', \<lparr>Name = ''pkg'', ImportPath = ''zzz/pkg'', Imports = []\<rparr>)]
      else if prefix = ''aaa/pkg'' then
        [(''aaa/pkg'', \<lparr>Name = ''pkg'', ImportPath = ''aaa/pkg'', Imports = []\<rparr>)]
      else [])\<rparr>))"

definition demo_env :: env where
  "demo_env = \<lparr>
     DeduceRemoteRepo = (\<lambda>w p i. Inr (demo_repo p, [])),
     url_Parse = (\<lambda>p. Inr ([], p)),
     Copypath = (\<lambda>w d s. None),
     WriteManifest = (\<lambda>w m. None),
     LoadPaths = (\<lambda>w paths. Inr (map demo_tree paths)),
     vendorDir = (\<lambda>g. ''vendor''),
     GOROOT = ''/go'',
     Join = join,
     FromSlash = (\<lambda>p. p)\<rparr>"

definition demo_world :: world where
  "demo_world = \<lparr>branch = ''dev'', tag = ''v1.0'', revision = [], insecure = False,
     manifest_file = Inr \<lparr>Dependencies = []\<rparr>, vendor_tree = [], calls = []\<rparr>"

definition vendored_x :: Manifest where
  "vendored_x = \<lparr>Dependencies =
     [\<lparr>Importpath = ''x'', Repository = ''https://x'', Revision = ''abc123'',
        Branch = ''dev'', Path = []\<rparr>]\<rparr>"

definition vendored_world :: world where
  "vendored_world = demo_world\<lparr>manifest_file := Inr vendored_x,
     vendor_tree := [(''vendor/x'', ''/tmp/x'')]\<rparr>"

definition Checkout_calls :: "world \<Rightarrow> call list" where
  "Checkout_calls w =
     [c \<leftarrow> calls w. case c of Checkout_call _ _ _ _ \<Rightarrow> True | _ \<Rightarrow> False]"

definition DeduceRemoteRepo_calls :: "world \<Rightarrow> call list" where
  "DeduceRemoteRepo_calls w =
     [c \<leftarrow> calls w. case c of DeduceRemoteRepo_call _ _ \<Rightarrow> True | _ \<Rightarrow> False]"

definition copy_fails :: env where
  "copy_fails = demo_env\<lparr>Copypath := (\<lambda>w d s. Some ''no space left on device'')\<rparr>"

definition write_fails :: env where
  "write_fails = demo_env\<lparr>WriteManifest := (\<lambda>w m. Some ''permission denied'')\<rparr>"

definition unresolvable :: env where
  "unresolvable =
     demo_env\<lparr>DeduceRemoteRepo := (\<lambda>w p i. Inl ''unable to determine remote'')\<rparr>"

section \<open>Analysis of the import-graph walk\<close>

subsection \<open>The import graph\<close>

text \<open>
  The edges that \<open>fn\<close> follows: from a package of the combined table to each of its
  imports other than itself (line 268 skips a self-import).  \<open>unavailable im x\<close> are
  the paths reachable from \<open>x\<close> that the table lacks; \<open>cycle_free im x\<close> says that no
  path reachable from \<open>x\<close> lies on a cycle; \<open>plain_ok im x\<close> says that the walk without
  the memo, started at \<open>x\<close> on a stack that \<open>x\<close> cannot reach, returns and adds exactly
  \<open>unavailable im x\<close>.
\<close>

definition edges :: "(string \<times> Pkg) list \<Rightarrow> (string \<times> string) set" where
  "edges im = {(x, y). \<exists>p. map_of im x = Some p \<and> y \<in> set (Imports p) \<and> y \<noteq> x}"

definition unavailable :: "(string \<times> Pkg) list \<Rightarrow> string \<Rightarrow> string set" where
  "unavailable im x = {y. (x, y) \<in> (edges im)\<^sup>* \<and> map_of im y = None}"

definition cycle_free :: "(string \<times> Pkg) list \<Rightarrow> string \<Rightarrow> bool" where
  "cycle_free im x \<longleftrightarrow> (\<forall>y. (x, y) \<in> (edges im)\<^sup>* \<longrightarrow> (y, y) \<notin> (edges im)\<^sup>+)"

definition plain_ok :: "(string \<times> Pkg) list \<Rightarrow> string \<Rightarrow> bool" where
  "plain_ok im x \<longleftrightarrow>
     (\<forall>m c S. (\<forall>v\<in>S. (x, v) \<notin> (edges im)\<^sup>*) \<longrightarrow>
        fn_plain im x \<lparr>missing = m, checked = c, stk = S\<rparr> =
          Inr \<lparr>missing = m \<union> unavailable im x, checked = c, stk = S\<rparr>)"

lemma edgesI: "map_of im x = Some p \<Longrightarrow> y \<in> set (Imports p) \<Longrightarrow> y \<noteq> x \<Longrightarrow> (x, y) \<in> edges im"
  by (auto simp: edges_def)

lemma edgesD: "(x, y) \<in> edges im \<Longrightarrow> \<exists>p. map_of im x = Some p \<and> y \<in> set (Imports p) \<and> y \<noteq> x"
  by (auto simp: edges_def)

lemma edges_None: "map_of im x = None \<Longrightarrow> (x, y) \<notin> edges im"
  by (auto simp: edges_def)

lemma reach_None: "map_of im x = None \<Longrightarrow> (x, y) \<in> (edges im)\<^sup>* \<Longrightarrow> y = x"
  by (auto elim: converse_rtranclE simp: edges_None)

lemma reach_Some:
  assumes "map_of im x = Some p" "(x, y) \<in> (edges im)\<^sup>*" "y \<noteq> x"
  shows "\<exists>i\<in>set (Imports p) - {x}. (i, y) \<in> (edges im)\<^sup>*"
proof -
  from assms(2,3) obtain i where "(x, i) \<in> edges im" "(i, y) \<in> (edges im)\<^sup>*"
    by (auto elim: converse_rtranclE)
  with assms(1) show ?thesis by (auto dest!: edgesD)
qed

lemma unavailable_None: "map_of im x = None \<Longrightarrow> unavailable im x = {x}"
  by (auto simp: unavailable_def dest: reach_None)

lemma unavailable_Some:
  assumes "map_of im x = Some p"
  shows "unavailable im x = (\<Union>i\<in>set (Imports p) - {x}. unavailable im i)"
proof (intro set_eqI iffI)
  fix y assume "y \<in> unavailable im x"
  then have r: "(x, y) \<in> (edges im)\<^sup>*" and n: "map_of im y = None"
    by (auto simp: unavailable_def)
  from n assms have "y \<noteq> x" by auto
  from reach_Some[OF assms r this] n show "y \<in> (\<Union>i\<in>set (Imports p) - {x}. unavailable im i)"
    by (auto simp: unavailable_def)
next
  fix y assume "y \<in> (\<Union>i\<in>set (Imports p) - {x}. unavailable im i)"
  then obtain i where i: "i \<in> set (Imports p)" "i \<noteq> x" and
    r: "(i, y) \<in> (edges im)\<^sup>*" and n: "map_of im y = None"
    by (auto simp: unavailable_def)
  from assms i have "(x, i) \<in> edges im" by (rule edgesI)
  from this r have "(x, y) \<in> (edges im)\<^sup>*" by (rule converse_rtrancl_into_rtrancl)
  with n show "y \<in> unavailable im x" by (simp add: unavailable_def)
qed

lemma cycle_free_None:
  assumes "map_of im x = None" shows "cycle_free im x"
  unfolding cycle_free_def
proof (intro allI impI)
  fix y assume "(x, y) \<in> (edges im)\<^sup>*"
  with assms have "y = x" by (rule reach_None)
  moreover have "(x, x) \<notin> (edges im)\<^sup>+"
    using assms by (auto dest!: tranclD simp: edges_None)
  ultimately show "(y, y) \<notin> (edges im)\<^sup>+" by simp
qed

lemma cycle_free_Some:
  assumes p: "map_of im x = Some p"
    and ch: "\<forall>i\<in>set (Imports p) - {x}. cycle_free im i \<and> (i, x) \<notin> (edges im)\<^sup>*"
  shows "cycle_free im x"
  unfolding cycle_free_def
proof (intro allI impI)
  fix y assume r: "(x, y) \<in> (edges im)\<^sup>*"
  show "(y, y) \<notin> (edges im)\<^sup>+"
  proof (cases "y = x")
    case True
    show ?thesis
    proof
      assume "(y, y) \<in> (edges im)\<^sup>+"
      with True obtain i where "(x, i) \<in> edges im" "(i, x) \<in> (edges im)\<^sup>*"
        by (auto dest: tranclD)
      with p ch show False by (auto dest!: edgesD)
    qed
  next
    case False
    from reach_Some[OF p r False] ch show ?thesis by (auto simp: cycle_free_def)
  qed
qed

lemma plain_ok_None:
  assumes "map_of im x = None" shows "plain_ok im x"
  using assms by (simp add: plain_ok_def unavailable_None fn_plain.simps)

lemma plain_range_ok:
  assumes "\<forall>i\<in>set ys - {x}. plain_ok im i \<and> (i, x) \<notin> (edges im)\<^sup>* \<and> (\<forall>v\<in>S. (i, v) \<notin> (edges im)\<^sup>*)"
  shows "fn_plain_range im x ys \<lparr>missing = m, checked = c, stk = insert x S\<rparr> =
     Inr \<lparr>missing = m \<union> (\<Union>i\<in>set ys - {x}. unavailable im i), checked = c, stk = insert x S\<rparr>"
  using assms
proof (induction ys arbitrary: m)
  case Nil
  show ?case by simp
next
  case (Cons i rest)
  show ?case
  proof (cases "i = x")
    case True
    with Cons.prems have "\<forall>i\<in>set rest - {x}. plain_ok im i \<and> (i, x) \<notin> (edges im)\<^sup>* \<and> (\<forall>v\<in>S. (i, v) \<notin> (edges im)\<^sup>*)"
      by simp
    from Cons.IH[OF this] True show ?thesis by simp
  next
    case False
    with Cons.prems have ok: "plain_ok im i" and nx: "(i, x) \<notin> (edges im)\<^sup>*"
      and nS: "\<forall>v\<in>S. (i, v) \<notin> (edges im)\<^sup>*" by auto
    from nx nS have "\<forall>v\<in>insert x S. (i, v) \<notin> (edges im)\<^sup>*" by simp
    with ok have step: "fn_plain im i \<lparr>missing = m, checked = c, stk = insert x S\<rparr> =
        Inr \<lparr>missing = m \<union> unavailable im i, checked = c, stk = insert x S\<rparr>"
      unfolding plain_ok_def by blast
    from Cons.prems have "\<forall>i\<in>set rest - {x}. plain_ok im i \<and> (i, x) \<notin> (edges im)\<^sup>* \<and> (\<forall>v\<in>S. (i, v) \<notin> (edges im)\<^sup>*)"
      by simp
    have "insert i (set rest) - {x} = insert i (set rest - {x})" using False by auto
    with Cons.IH[OF \<open>\<forall>i\<in>set rest - {x}. _\<close>, of "m \<union> unavailable im i"] step False
    show ?thesis by (simp add: Un_assoc)
  qed
qed

lemma plain_ok_Some:
  assumes p: "map_of im x = Some p"
    and ch: "\<forall>i\<in>set (Imports p) - {x}. plain_ok im i \<and> (i, x) \<notin> (edges im)\<^sup>*"
  shows "plain_ok im x"
  unfolding plain_ok_def
proof (intro allI impI)
  fix m c S assume S: "\<forall>v\<in>S. (x, v) \<notin> (edges im)\<^sup>*"
  then have xS: "x \<notin> S" by auto
  have "\<forall>i\<in>set (Imports p) - {x}. plain_ok im i \<and> (i, x) \<notin> (edges im)\<^sup>* \<and> (\<forall>v\<in>S. (i, v) \<notin> (edges im)\<^sup>*)"
  proof
    fix i assume i: "i \<in> set (Imports p) - {x}"
    with p have e: "(x, i) \<in> edges im" by (auto intro: edgesI)
    have "\<forall>v\<in>S. (i, v) \<notin> (edges im)\<^sup>*"
    proof
      fix v assume "v \<in> S"
      with S have "(x, v) \<notin> (edges im)\<^sup>*" by simp
      with e show "(i, v) \<notin> (edges im)\<^sup>*" by (auto intro: converse_rtrancl_into_rtrancl)
    qed
    with ch i show "plain_ok im i \<and> (i, x) \<notin> (edges im)\<^sup>* \<and> (\<forall>v\<in>S. (i, v) \<notin> (edges im)\<^sup>*)"
      by simp
  qed
  from plain_range_ok[OF this, of m c] p xS
  show "fn_plain im x \<lparr>missing = m, checked = c, stk = S\<rparr> =
          Inr \<lparr>missing = m \<union> unavailable im x, checked = c, stk = S\<rparr>"
    by (simp add: fn_plain.simps push_def pop_def unavailable_Some[OF p])
qed

subsection \<open>The invariant of the memoized walk\<close>

text \<open>
  A path is in \<open>checked\<close> only when it is in the table, its imports are checked or
  absent, everything unavailable below it is already in \<open>missing\<close>, and the plain walk
  succeeds on it.  \<open>visited\<close> and \<open>visited_range\<close> are what a returning call of \<open>fn\<close>
  and of its loop establish.
\<close>

definition node_done :: "(string \<times> Pkg) list \<Rightarrow> string set \<Rightarrow> string set \<Rightarrow> string \<Rightarrow> bool" where
  "node_done im M C c \<longleftrightarrow>
     map_of im c \<noteq> None \<and>
     (\<forall>y. (c, y) \<in> edges im \<longrightarrow> y \<in> C \<or> map_of im y = None) \<and>
     unavailable im c \<subseteq> M \<and> plain_ok im c \<and> cycle_free im c"

definition walk_inv :: "(string \<times> Pkg) list \<Rightarrow> walk \<Rightarrow> bool" where
  "walk_inv im s \<longleftrightarrow>
     finite (missing s) \<and> checked s \<inter> stk s = {} \<and> (\<forall>v\<in>stk s. map_of im v \<noteq> None) \<and>
     (\<forall>c\<in>checked s. node_done im (missing s) (checked s) c)"

definition visited :: "(string \<times> Pkg) list \<Rightarrow> string \<Rightarrow> walk \<Rightarrow> walk \<Rightarrow> bool" where
  "visited im x s s' \<longleftrightarrow>
     walk_inv im s' \<and> stk s' = stk s \<and> missing s' = missing s \<union> unavailable im x \<and>
     checked s \<subseteq> checked s' \<and>
     (map_of im x \<noteq> None \<longrightarrow> missing s' = missing s \<longrightarrow> x \<in> checked s') \<and>
     (\<forall>v\<in>stk s. (x, v) \<notin> (edges im)\<^sup>*) \<and> plain_ok im x \<and> cycle_free im x"

definition visited_range ::
  "(string \<times> Pkg) list \<Rightarrow> string \<Rightarrow> string list \<Rightarrow> walk \<Rightarrow> walk \<Rightarrow> bool" where
  "visited_range im x ys s s' \<longleftrightarrow>
     walk_inv im s' \<and> stk s' = stk s \<and>
     missing s' = missing s \<union> (\<Union>i\<in>set ys - {x}. unavailable im i) \<and>
     checked s \<subseteq> checked s' \<and>
     (missing s' = missing s \<longrightarrow> (\<forall>i\<in>set ys - {x}. map_of im i \<noteq> None \<longrightarrow> i \<in> checked s')) \<and>
     (\<forall>i\<in>set ys - {x}. (\<forall>v\<in>stk s. (i, v) \<notin> (edges im)\<^sup>*) \<and> plain_ok im i \<and> cycle_free im i)"

lemma node_done_mono:
  assumes "node_done im M C c" "M \<subseteq> M'" "C \<subseteq> C'"
  shows "node_done im M' C' c"
  using assms unfolding node_done_def by (meson subsetD subset_trans)

lemma walk_inv_checkedD:
  "walk_inv im s \<Longrightarrow> c \<in> checked s \<Longrightarrow> node_done im (missing s) (checked s) c"
  by (simp add: walk_inv_def)

lemma walk_inv_checked_reach:
  assumes "walk_inv im s" "c \<in> checked s" "(c, y) \<in> (edges im)\<^sup>*"
  shows "y \<in> checked s \<or> map_of im y = None"
  using assms(3)
proof (induction rule: rtrancl_induct)
  case base
  from assms(2) show ?case by simp
next
  case (step y z)
  from step.hyps(2) have "map_of im y \<noteq> None" by (auto dest: edgesD)
  with step.IH have "y \<in> checked s" by simp
  from walk_inv_checkedD[OF assms(1) this] step.hyps(2) show ?case
    by (simp add: node_done_def)
qed

lemma walk_inv_checked_stk:
  assumes "walk_inv im s" "c \<in> checked s" "v \<in> stk s"
  shows "(c, v) \<notin> (edges im)\<^sup>*"
proof
  assume "(c, v) \<in> (edges im)\<^sup>*"
  from walk_inv_checked_reach[OF assms(1,2) this] have "v \<in> checked s \<or> map_of im v = None" .
  moreover from assms(1,3) have "v \<notin> checked s" "map_of im v \<noteq> None"
    by (auto simp: walk_inv_def)
  ultimately show False by simp
qed

lemma walk_inv_missing:
  assumes "walk_inv im s"
  shows "walk_inv im (s\<lparr>missing := insert x (missing s)\<rparr>)"
proof -
  have "\<forall>c\<in>checked s. node_done im (insert x (missing s)) (checked s) c"
    using assms node_done_mono[of im "missing s" "checked s" _ "insert x (missing s)" "checked s"]
    by (auto simp: walk_inv_def)
  with assms show ?thesis by (simp add: walk_inv_def)
qed

lemma visited_None:
  assumes inv: "walk_inv im s" and n: "map_of im x = None"
  shows "visited im x s (s\<lparr>missing := insert x (missing s)\<rparr>)"
proof -
  have "\<forall>v\<in>stk s. (x, v) \<notin> (edges im)\<^sup>*"
  proof
    fix v assume v: "v \<in> stk s"
    show "(x, v) \<notin> (edges im)\<^sup>*"
    proof
      assume "(x, v) \<in> (edges im)\<^sup>*"
      with n have "v = x" by (rule reach_None)
      with v inv n show False by (auto simp: walk_inv_def)
    qed
  qed
  with walk_inv_missing[OF inv, of x] plain_ok_None[OF n] cycle_free_None[OF n] n
  show ?thesis
    by (simp add: visited_def unavailable_None)
qed

lemma visited_checked:
  assumes inv: "walk_inv im s" and c: "x \<in> checked s"
  shows "visited im x s s"
proof -
  from walk_inv_checkedD[OF inv c]
  have "unavailable im x \<subseteq> missing s" "plain_ok im x" "cycle_free im x"
    by (simp_all add: node_done_def)
  moreover have "\<forall>v\<in>stk s. (x, v) \<notin> (edges im)\<^sup>*"
    using walk_inv_checked_stk[OF inv c] by simp
  ultimately show ?thesis using inv c by (simp add: visited_def Un_absorb2)
qed

lemma walk_inv_push:
  assumes "walk_inv im s" "map_of im x = Some p" "x \<notin> checked s"
  shows "walk_inv im (s\<lparr>stk := insert x (stk s)\<rparr>)"
  using assms by (simp add: walk_inv_def)

lemma walk_inv_insert_checked:
  assumes inv2: "walk_inv im s2" and stk2: "stk s2 = insert x (stk s)" and ns: "x \<notin> stk s"
    and nd: "node_done im (missing s2) (insert x (checked s2)) x"
  shows "walk_inv im (s2\<lparr>checked := insert x (checked s2), stk := stk s\<rparr>)"
proof -
  from inv2 stk2 have d: "checked s2 \<inter> stk s = {}" "\<forall>v\<in>stk s. map_of im v \<noteq> None"
    "finite (missing s2)"
    by (auto simp: walk_inv_def)
  have "\<forall>c\<in>insert x (checked s2). node_done im (missing s2) (insert x (checked s2)) c"
  proof
    fix c assume "c \<in> insert x (checked s2)"
    then consider "c = x" | "c \<in> checked s2" by auto
    then show "node_done im (missing s2) (insert x (checked s2)) c"
    proof cases
      case 1 with nd show ?thesis by simp
    next
      case 2
      from walk_inv_checkedD[OF inv2 this] show ?thesis
        by (rule node_done_mono) auto
    qed
  qed
  with d ns show ?thesis by (simp add: walk_inv_def)
qed

lemma walk_inv_pop:
  assumes inv2: "walk_inv im s2" and stk2: "stk s2 = insert x (stk s)"
  shows "walk_inv im (s2\<lparr>stk := stk s\<rparr>)"
  using assms by (auto simp: walk_inv_def)

lemma visited_Some:
  assumes inv: "walk_inv im s" and p: "map_of im x = Some p" and nc: "x \<notin> checked s"
    and ns: "x \<notin> stk s"
    and vr: "visited_range im x (Imports p) (s\<lparr>stk := insert x (stk s)\<rparr>) s2"
  shows "visited im x s
     ((if card (missing s2) = card (missing s)
       then s2\<lparr>checked := insert x (checked s2)\<rparr> else s2)\<lparr>stk := stk s\<rparr>)"
proof -
  let ?ch = "set (Imports p) - {x}"
  from vr have inv2: "walk_inv im s2" and stk2: "stk s2 = insert x (stk s)"
    and m2: "missing s2 = missing s \<union> (\<Union>i\<in>?ch. unavailable im i)"
    and c2: "checked s \<subseteq> checked s2"
    and eq2: "missing s2 = missing s \<Longrightarrow> \<forall>i\<in>?ch. map_of im i \<noteq> None \<longrightarrow> i \<in> checked s2"
    and ch: "\<forall>i\<in>?ch. (\<forall>v\<in>insert x (stk s). (i, v) \<notin> (edges im)\<^sup>*) \<and> plain_ok im i \<and> cycle_free im i"
    by (simp_all add: visited_range_def)
  from m2 have m2': "missing s2 = missing s \<union> unavailable im x"
    by (simp add: unavailable_Some[OF p])
  from ch have ok: "plain_ok im x" by (intro plain_ok_Some[OF p]) simp
  from ch have cf: "cycle_free im x" by (intro cycle_free_Some[OF p]) simp
  have nr: "\<forall>v\<in>stk s. (x, v) \<notin> (edges im)\<^sup>*"
  proof
    fix v assume v: "v \<in> stk s"
    show "(x, v) \<notin> (edges im)\<^sup>*"
    proof
      assume r: "(x, v) \<in> (edges im)\<^sup>*"
      from v ns have "v \<noteq> x" by auto
      from reach_Some[OF p r this] obtain i where "i \<in> ?ch" "(i, v) \<in> (edges im)\<^sup>*" by auto
      with ch v show False by simp
    qed
  qed
  from inv2 have fin: "finite (missing s2)" by (simp add: walk_inv_def)
  have card_eq: "card (missing s2) = card (missing s) \<longleftrightarrow> missing s2 = missing s"
  proof
    assume "card (missing s2) = card (missing s)"
    moreover from m2' have "missing s \<subseteq> missing s2" by auto
    ultimately show "missing s2 = missing s" using fin by (metis card_subset_eq)
  qed simp
  show ?thesis
  proof (cases "missing s2 = missing s")
    case True
    have closed: "\<forall>y. (x, y) \<in> edges im \<longrightarrow> y \<in> insert x (checked s2) \<or> map_of im y = None"
    proof (intro allI impI)
      fix y assume "(x, y) \<in> edges im"
      with p have "y \<in> ?ch" by (auto dest!: edgesD)
      with eq2[OF True] show "y \<in> insert x (checked s2) \<or> map_of im y = None" by auto
    qed
    from True m2' have sub: "unavailable im x \<subseteq> missing s2" by auto
    from p closed sub ok cf have "node_done im (missing s2) (insert x (checked s2)) x"
      by (simp add: node_done_def)
    from walk_inv_insert_checked[OF inv2 stk2 ns this] True m2' c2 nr ok cf card_eq
    show ?thesis
      by (auto simp: visited_def)
  next
    case False
    from walk_inv_pop[OF inv2 stk2] False card_eq m2' c2 nr ok cf show ?thesis
      by (simp add: visited_def)
  qed
qed

lemma visited_range_Nil:
  assumes "walk_inv im s" shows "visited_range im x [] s s"
  using assms by (simp add: visited_range_def)

lemma visited_range_skip:
  assumes "visited_range im x rest s s'" shows "visited_range im x (x # rest) s s'"
  using assms by (simp add: visited_range_def)

lemma visited_range_Cons:
  assumes ne: "i \<noteq> x" and v: "visited im i s sm" and vr: "visited_range im x rest sm s'"
  shows "visited_range im x (i # rest) s s'"
proof -
  let ?U = "\<Union>i\<in>set rest - {x}. unavailable im i"
  from v have a: "stk sm = stk s" "missing sm = missing s \<union> unavailable im i"
    "checked s \<subseteq> checked sm"
    "map_of im i \<noteq> None \<longrightarrow> missing sm = missing s \<longrightarrow> i \<in> checked sm"
    "\<forall>v\<in>stk s. (i, v) \<notin> (edges im)\<^sup>*" "plain_ok im i" "cycle_free im i"
    by (simp_all add: visited_def)
  from vr have b: "walk_inv im s'" "stk s' = stk sm" "missing s' = missing sm \<union> ?U"
    "checked sm \<subseteq> checked s'"
    "missing s' = missing sm \<longrightarrow> (\<forall>i\<in>set rest - {x}. map_of im i \<noteq> None \<longrightarrow> i \<in> checked s')"
    "\<forall>i\<in>set rest - {x}. (\<forall>v\<in>stk sm. (i, v) \<notin> (edges im)\<^sup>*) \<and> plain_ok im i \<and> cycle_free im i"
    by (simp_all add: visited_range_def)
  have set_eq: "set (i # rest) - {x} = insert i (set rest - {x})" using ne by auto
  have m: "missing s' = missing s \<union> (\<Union>i\<in>set (i # rest) - {x}. unavailable im i)"
    unfolding set_eq using a(2) b(3) by auto
  have e: "missing s' = missing s \<longrightarrow>
      (\<forall>j\<in>set (i # rest) - {x}. map_of im j \<noteq> None \<longrightarrow> j \<in> checked s')"
  proof
    assume eq: "missing s' = missing s"
    with a(2) b(3) have "missing sm = missing s" "missing s' = missing sm" by auto
    with a(4) b(4,5) show "\<forall>j\<in>set (i # rest) - {x}. map_of im j \<noteq> None \<longrightarrow> j \<in> checked s'"
      unfolding set_eq by auto
  qed
  have f: "\<forall>j\<in>set (i # rest) - {x}. (\<forall>v\<in>stk s. (j, v) \<notin> (edges im)\<^sup>*) \<and> plain_ok im j \<and> cycle_free im j"
    unfolding set_eq using a(1,5,6,7) b(6) by simp
  from b(1,2,4) a(1,3) m e f show ?thesis
    unfolding visited_range_def by (intro conjI) auto
qed

lemma fn_visited:
  "walk_inv im s \<Longrightarrow> fn im x s = Inr s' \<Longrightarrow> visited im x s s'"
  "walk_inv im s \<Longrightarrow> fn_range im x ys s = Inr s' \<Longrightarrow> visited_range im x ys s s'"
proof (induction im x s and im x ys s arbitrary: s' and s' rule: fn_fn_range.induct)
  case (1 im x s)
  note inv = "1.prems"(1) and run = "1.prems"(2)
  show ?case
  proof (cases "map_of im x")
    case None
    with run have "s' = s\<lparr>missing := insert x (missing s)\<rparr>" by (simp add: fn.simps)
    with visited_None[OF inv None] show ?thesis by simp
  next
    case (Some p)
    show ?thesis
    proof (cases "x \<in> checked s")
      case True
      with Some run have "s' = s" by (simp add: fn.simps)
      with visited_checked[OF inv True] show ?thesis by simp
    next
      case False
      with Some run obtain s1 s2 where
        a: "push x s = Inr s1" and
        b: "fn_range im x (Imports p) s1 = Inr s2" and
        c: "pop x (if card (missing s2) = card (missing s)
                   then s2\<lparr>checked := insert x (checked s2)\<rparr> else s2) = Inr s'"
        by (simp add: fn.simps split: sum.splits)
      from a have ns: "x \<notin> stk s" and s1: "s1 = s\<lparr>stk := insert x (stk s)\<rparr>"
        by (simp_all add: push_Inr)
      from walk_inv_push[OF inv Some False] s1 have inv1: "walk_inv im s1" by simp
      from "1.IH"[OF Some False a inv1 b] s1
      have vr: "visited_range im x (Imports p) (s\<lparr>stk := insert x (stk s)\<rparr>) s2" by simp
      then have "stk s2 = insert x (stk s)" by (simp add: visited_range_def)
      with c ns have "s' = (if card (missing s2) = card (missing s)
                   then s2\<lparr>checked := insert x (checked s2)\<rparr> else s2)\<lparr>stk := stk s\<rparr>"
        by (auto simp: pop_Inr split: if_splits)
      with visited_Some[OF inv Some False ns vr] show ?thesis by simp
    qed
  qed
next
  case (2 im x s)
  then show ?case by (simp add: visited_range_Nil)
next
  case (3 im x i rest s)
  note inv = "3.prems"(1) and run = "3.prems"(2)
  show ?case
  proof (cases "i = x")
    case True
    with run have "fn_range im x rest s = Inr s'" by simp
    from "3.IH"(1)[OF True inv this] True show ?thesis by (simp add: visited_range_skip)
  next
    case False
    with run obtain sm where a: "fn im i s = Inr sm" and b: "fn_range im x rest sm = Inr s'"
      by (auto split: sum.splits)
    from "3.IH"(2)[OF False inv a] have v: "visited im i s sm" .
    then have "walk_inv im sm" by (simp add: visited_def)
    from "3.IH"(3)[OF False a this b] have "visited_range im x rest sm s'" .
    with False v show ?thesis by (rule visited_range_Cons)
  qed
qed

subsection \<open>Panics of the walk\<close>

lemma fn_stk:
  "fn im x s = Inr s' \<Longrightarrow> stk s' = stk s"
  "fn_range im x ys s = Inr s' \<Longrightarrow> stk s' = stk s"
proof (induction im x s and im x ys s arbitrary: s' and s' rule: fn_fn_range.induct)
  case (1 im x s)
  show ?case
  proof (cases "map_of im x")
    case None
    with "1.prems" show ?thesis by (auto simp: fn.simps)
  next
    case (Some p)
    show ?thesis
    proof (cases "x \<in> checked s")
      case True
      with Some "1.prems" show ?thesis by (simp add: fn.simps)
    next
      case False
      with Some "1.prems" obtain s1 s2 where
        a: "push x s = Inr s1" and
        b: "fn_range im x (Imports p) s1 = Inr s2" and
        c: "pop x (if card (missing s2) = card (missing s)
                   then s2\<lparr>checked := insert x (checked s2)\<rparr> else s2) = Inr s'"
        by (simp add: fn.simps split: sum.splits)
      from "1.IH"[OF Some False a b] have "stk s2 = stk s1" .
      with a c show ?thesis by (auto simp: push_Inr pop_Inr split: if_splits)
    qed
  qed
next
  case (2 im x s)
  then show ?case by simp
next
  case (3 im x i rest s)
  show ?case
  proof (cases "i = x")
    case True
    with "3.prems" "3.IH"(1) show ?thesis by simp
  next
    case False
    with "3.prems" obtain sm where a: "fn im i s = Inr sm" and b: "fn_range im x rest sm = Inr s'"
      by (auto split: sum.splits)
    from "3.IH"(2)[OF False a] "3.IH"(3)[OF False a b] show ?thesis by simp
  qed
qed

text \<open>The walk never reaches the second panic.\<close>

lemma fn_fault:
  "fn im x s = Inl e \<Longrightarrow> \<exists>v S. e = ImportLoop v S"
  "fn_range im x ys s = Inl e \<Longrightarrow> \<exists>v S. e = ImportLoop v S"
proof (induction im x s and im x ys s arbitrary: e and e rule: fn_fn_range.induct)
  case (1 im x s)
  from "1.prems" obtain p where p: "map_of im x = Some p" and nc: "x \<notin> checked s"
    by (auto simp: fn.simps split: option.splits if_splits)
  show ?case
  proof (cases "push x s")
    case (Inl e1)
    with p nc "1.prems" show ?thesis by (auto simp: fn.simps push_def split: if_splits)
  next
    case (Inr s1)
    show ?thesis
    proof (cases "fn_range im x (Imports p) s1")
      case (Inl e2)
      with p nc Inr "1.prems" have "e = e2" by (simp add: fn.simps)
      with "1.IH"[OF p nc Inr Inl] show ?thesis by simp
    next
      case r: (Inr s2)
      from fn_stk(2)[OF r] Inr have "x \<in> stk s2" by (auto simp: push_Inr)
      with p nc Inr r "1.prems" show ?thesis by (auto simp: fn.simps pop_def split: if_splits)
    qed
  qed
next
  case (2 im x s)
  then show ?case by simp
next
  case (3 im x i rest s)
  show ?case
  proof (cases "i = x")
    case True
    with "3.prems" "3.IH"(1) show ?thesis by simp
  next
    case False
    show ?thesis
    proof (cases "fn im i s")
      case (Inl e1)
      with False "3.prems" have "e = e1" by simp
      with "3.IH"(2)[OF False Inl] show ?thesis by simp
    next
      case (Inr sm)
      with False "3.prems" have "fn_range im x rest sm = Inl e" by simp
      from "3.IH"(3)[OF False Inr this] show ?thesis .
    qed
  qed
qed

text \<open>A panic of the memoized walk is a panic of the plain walk on the same stack.\<close>

lemma fn_fault_plain:
  "walk_inv im s \<Longrightarrow> fn im x s = Inl e \<Longrightarrow>
     \<exists>e'. fn_plain im x \<lparr>missing = m, checked = c, stk = stk s\<rparr> = Inl e'"
  "walk_inv im s \<Longrightarrow> fn_range im x ys s = Inl e \<Longrightarrow>
     \<exists>e'. fn_plain_range im x ys \<lparr>missing = m, checked = c, stk = stk s\<rparr> = Inl e'"
proof (induction im x s and im x ys s arbitrary: e m c and e m c rule: fn_fn_range.induct)
  case (1 im x s)
  note inv = "1.prems"(1) and run = "1.prems"(2)
  from run obtain p where p: "map_of im x = Some p" and nc: "x \<notin> checked s"
    by (auto simp: fn.simps split: option.splits if_splits)
  show ?case
  proof (cases "push x s")
    case (Inl e1)
    then have "x \<in> stk s" by (auto simp: push_def split: if_splits)
    with p show ?thesis by (simp add: fn_plain.simps push_def)
  next
    case (Inr s1)
    then have ns: "x \<notin> stk s" and s1: "s1 = s\<lparr>stk := insert x (stk s)\<rparr>"
      by (simp_all add: push_Inr)
    from walk_inv_push[OF inv p nc] s1 have inv1: "walk_inv im s1" by simp
    show ?thesis
    proof (cases "fn_range im x (Imports p) s1")
      case (Inl e2)
      from "1.IH"[OF p nc Inr inv1 Inl, of m c] s1
      obtain e' where "fn_plain_range im x (Imports p)
          \<lparr>missing = m, checked = c, stk = insert x (stk s)\<rparr> = Inl e'" by auto
      with p ns show ?thesis by (simp add: fn_plain.simps push_def)
    next
      case r: (Inr s2)
      from fn_stk(2)[OF r] Inr have "x \<in> stk s2" by (auto simp: push_Inr)
      with p nc Inr r run show ?thesis by (auto simp: fn.simps pop_def split: if_splits)
    qed
  qed
next
  case (2 im x s)
  then show ?case by simp
next
  case (3 im x i rest s)
  note inv = "3.prems"(1) and run = "3.prems"(2)
  show ?case
  proof (cases "i = x")
    case True
    with run have "fn_range im x rest s = Inl e" by simp
    from "3.IH"(1)[OF True inv this, of m c] True show ?thesis by simp
  next
    case False
    show ?thesis
    proof (cases "fn im i s")
      case (Inl e1)
      from "3.IH"(2)[OF False inv Inl, of m c] False show ?thesis by auto
    next
      case (Inr sm)
      with False run have r: "fn_range im x rest sm = Inl e" by simp
      from fn_visited(1)[OF inv Inr] have v: "visited im i s sm" .
      then have invm: "walk_inv im sm" and stkm: "stk sm = stk s"
        and ok: "plain_ok im i" and nr: "\<forall>v\<in>stk s. (i, v) \<notin> (edges im)\<^sup>*"
        by (simp_all add: visited_def)
      from ok nr have step: "fn_plain im i \<lparr>missing = m, checked = c, stk = stk s\<rparr> =
          Inr \<lparr>missing = m \<union> unavailable im i, checked = c, stk = stk s\<rparr>"
        by (simp add: plain_ok_def)
      from "3.IH"(3)[OF False Inr invm r, of "m \<union> unavailable im i" c] stkm step False
      show ?thesis by simp
    qed
  qed
qed

text \<open>A panic needs a cycle, or a path back into the stack.\<close>

lemma fn_fault_cycle:
  "fn im x s = Inl e \<Longrightarrow> (\<exists>v\<in>stk s. (x, v) \<in> (edges im)\<^sup>*) \<or> \<not> cycle_free im x"
  "fn_range im x ys s = Inl e \<Longrightarrow>
     \<exists>i\<in>set ys - {x}. (\<exists>v\<in>stk s. (i, v) \<in> (edges im)\<^sup>*) \<or> \<not> cycle_free im i"
proof (induction im x s and im x ys s arbitrary: e and e rule: fn_fn_range.induct)
  case (1 im x s)
  from "1.prems" obtain p where p: "map_of im x = Some p" and nc: "x \<notin> checked s"
    by (auto simp: fn.simps split: option.splits if_splits)
  show ?case
  proof (cases "push x s")
    case (Inl e1)
    then have "x \<in> stk s" by (auto simp: push_def split: if_splits)
    then show ?thesis by auto
  next
    case (Inr s1)
    then have s1: "stk s1 = insert x (stk s)" by (auto simp: push_Inr)
    show ?thesis
    proof (cases "fn_range im x (Imports p) s1")
      case (Inl e2)
      from "1.IH"[OF p nc Inr Inl] s1 obtain i where i: "i \<in> set (Imports p) - {x}"
        and d: "(\<exists>v\<in>insert x (stk s). (i, v) \<in> (edges im)\<^sup>*) \<or> \<not> cycle_free im i"
        by auto
      from p i have e: "(x, i) \<in> edges im" by (auto intro: edgesI)
      from d consider "(i, x) \<in> (edges im)\<^sup>*" | v where "v \<in> stk s" "(i, v) \<in> (edges im)\<^sup>*"
        | "\<not> cycle_free im i" by auto
      then show ?thesis
      proof cases
        case 1
        with e have "(x, x) \<in> (edges im)\<^sup>+" by (rule rtrancl_into_trancl2)
        then have "\<not> cycle_free im x" by (auto simp: cycle_free_def)
        then show ?thesis by simp
      next
        case 2
        from e 2(2) have "(x, v) \<in> (edges im)\<^sup>*" by (rule converse_rtrancl_into_rtrancl)
        with 2(1) show ?thesis by auto
      next
        case 3
        then obtain y where "(i, y) \<in> (edges im)\<^sup>*" "(y, y) \<in> (edges im)\<^sup>+"
          by (auto simp: cycle_free_def)
        with e have "(x, y) \<in> (edges im)\<^sup>*" "(y, y) \<in> (edges im)\<^sup>+"
          by (auto intro: converse_rtrancl_into_rtrancl)
        then have "\<not> cycle_free im x" by (auto simp: cycle_free_def)
        then show ?thesis by simp
      qed
    next
      case r: (Inr s2)
      from fn_stk(2)[OF r] Inr have "x \<in> stk s2" by (auto simp: push_Inr)
      with p nc Inr r "1.prems" show ?thesis by (auto simp: fn.simps pop_def split: if_splits)
    qed
  qed
next
  case (2 im x s)
  then show ?case by simp
next
  case (3 im x i rest s)
  show ?case
  proof (cases "i = x")
    case True
    with "3.prems" have "fn_range im x rest s = Inl e" by simp
    from "3.IH"(1)[OF True this] show ?thesis by auto
  next
    case False
    show ?thesis
    proof (cases "fn im i s")
      case (Inl e1)
      from "3.IH"(2)[OF False Inl] False show ?thesis by auto
    next
      case (Inr sm)
      with False "3.prems" have "fn_range im x rest sm = Inl e" by simp
      from "3.IH"(3)[OF False Inr this] fn_stk(1)[OF Inr] show ?thesis by auto
    qed
  qed
qed

subsection \<open>\<open>findMissing\<close> as a whole\<close>

lemma walk_inv_init: "walk_inv im \<lparr>missing = {}, checked = {}, stk = {}\<rparr>"
  by (simp add: walk_inv_def)

lemma fn_targets_visited:
  assumes "walk_inv im s" "fn_targets im tgts s = Inr s'"
  shows "walk_inv im s' \<and> stk s' = stk s \<and>
     missing s' = missing s \<union> (\<Union>t\<in>set tgts. unavailable im (ImportPath t)) \<and>
     (\<forall>t\<in>set tgts. plain_ok im (ImportPath t) \<and> cycle_free im (ImportPath t))"
  using assms
proof (induction tgts arbitrary: s)
  case Nil
  then show ?case by simp
next
  case (Cons pkg rest)
  from Cons.prems(2) obtain sm where a: "fn im (ImportPath pkg) s = Inr sm"
    and b: "fn_targets im rest sm = Inr s'"
    by (auto split: sum.splits)
  from fn_visited(1)[OF Cons.prems(1) a]
  have v: "walk_inv im sm" "stk sm = stk s"
    "missing sm = missing s \<union> unavailable im (ImportPath pkg)"
    "plain_ok im (ImportPath pkg)" "cycle_free im (ImportPath pkg)"
    by (simp_all add: visited_def)
  from Cons.IH[OF v(1) b] v(2-5) show ?case by (simp add: Un_assoc)
qed

lemma fn_targets_fault:
  "fn_targets im tgts s = Inl e \<Longrightarrow> \<exists>v S. e = ImportLoop v S"
proof (induction tgts arbitrary: s)
  case Nil
  then show ?case by simp
next
  case (Cons pkg rest)
  show ?case
  proof (cases "fn im (ImportPath pkg) s")
    case (Inl e1)
    with Cons.prems have "e = e1" by simp
    with fn_fault(1)[OF Inl] show ?thesis by simp
  next
    case (Inr sm)
    with Cons.prems have "fn_targets im rest sm = Inl e" by simp
    then show ?thesis by (rule Cons.IH)
  qed
qed

lemma fn_targets_fault_plain:
  assumes "walk_inv im s" "stk s = {}" "fn_targets im tgts s = Inl e"
  shows "\<exists>t\<in>set tgts. \<exists>e'. fn_plain im (ImportPath t)
            \<lparr>missing = {}, checked = {}, stk = {}\<rparr> = Inl e'"
  using assms
proof (induction tgts arbitrary: s)
  case Nil
  then show ?case by simp
next
  case (Cons pkg rest)
  show ?case
  proof (cases "fn im (ImportPath pkg) s")
    case (Inl e1)
    from fn_fault_plain(1)[OF Cons.prems(1) Inl, of "{}" "{}"] Cons.prems(2)
    show ?thesis by auto
  next
    case (Inr sm)
    with Cons.prems have r: "fn_targets im rest sm = Inl e" by simp
    from fn_visited(1)[OF Cons.prems(1) Inr] Cons.prems(2)
    have "walk_inv im sm" "stk sm = {}" by (simp_all add: visited_def)
    from Cons.IH[OF this r] show ?thesis by auto
  qed
qed

lemma fn_targets_fault_cycle:
  assumes "stk s = {}" "fn_targets im tgts s = Inl e"
  shows "\<exists>t\<in>set tgts. \<not> cycle_free im (ImportPath t)"
  using assms
proof (induction tgts arbitrary: s)
  case Nil
  then show ?case by simp
next
  case (Cons pkg rest)
  show ?case
  proof (cases "fn im (ImportPath pkg) s")
    case (Inl e1)
    from fn_fault_cycle(1)[OF Inl] Cons.prems(1) show ?thesis by auto
  next
    case (Inr sm)
    with Cons.prems have r: "fn_targets im rest sm = Inl e" by simp
    from fn_stk(1)[OF Inr] Cons.prems(1) have "stk sm = {}" by simp
    from Cons.IH[OF this r] show ?thesis by auto
  qed
qed

lemma findMissing_Inr:
  assumes "findMissing tgts dsm = Inr M"
  shows "M = (\<Union>t\<in>set tgts. unavailable (build_imports dsm) (ImportPath t))"
    and "\<forall>t\<in>set tgts. plain_ok (build_imports dsm) (ImportPath t) \<and>
           cycle_free (build_imports dsm) (ImportPath t)"
proof -
  from assms obtain s' where
    r: "fn_targets (build_imports dsm) tgts \<lparr>missing = {}, checked = {}, stk = {}\<rparr> = Inr s'"
    and M: "M = missing s'"
    by (auto simp: findMissing_def split: sum.splits)
  from fn_targets_visited[OF walk_inv_init r] M
  show "M = (\<Union>t\<in>set tgts. unavailable (build_imports dsm) (ImportPath t))"
    and "\<forall>t\<in>set tgts. plain_ok (build_imports dsm) (ImportPath t) \<and>
           cycle_free (build_imports dsm) (ImportPath t)"
    by simp_all
qed

lemma findMissing_finite:
  assumes "findMissing tgts dsm = Inr M" shows "finite M"
proof -
  from assms obtain s' where
    r: "fn_targets (build_imports dsm) tgts \<lparr>missing = {}, checked = {}, stk = {}\<rparr> = Inr s'"
    and M: "M = missing s'"
    by (auto simp: findMissing_def split: sum.splits)
  from fn_targets_visited[OF walk_inv_init r] have "walk_inv (build_imports dsm) s'" by simp
  with M show ?thesis by (simp add: walk_inv_def)
qed

lemma findMissing_Inl:
  assumes "findMissing tgts dsm = Inl e"
  shows "\<exists>v S. e = ImportLoop v S"
    and "\<exists>t\<in>set tgts. \<exists>e'. findMissing_plain t dsm = Inl e'"
    and "\<exists>t\<in>set tgts. \<not> cycle_free (build_imports dsm) (ImportPath t)"
proof -
  from assms have
    r: "fn_targets (build_imports dsm) tgts \<lparr>missing = {}, checked = {}, stk = {}\<rparr> = Inl e"
    by (auto simp: findMissing_def split: sum.splits)
  from fn_targets_fault[OF r] show "\<exists>v S. e = ImportLoop v S" .
  from fn_targets_fault_plain[OF walk_inv_init _ r]
  obtain t e' where "t \<in> set tgts" "fn_plain (build_imports dsm) (ImportPath t)
      \<lparr>missing = {}, checked = {}, stk = {}\<rparr> = Inl e'" by auto
  then have "t \<in> set tgts" "findMissing_plain t dsm = Inl e'"
    by (simp_all add: findMissing_plain_def)
  then show "\<exists>t\<in>set tgts. \<exists>e'. findMissing_plain t dsm = Inl e'" by auto
  from fn_targets_fault_cycle[OF _ r]
  show "\<exists>t\<in>set tgts. \<not> cycle_free (build_imports dsm) (ImportPath t)" by simp
qed

lemma findMissing_plain_ok:
  assumes "plain_ok (build_imports dsm) (ImportPath t)"
  shows "findMissing_plain t dsm = Inr (unavailable (build_imports dsm) (ImportPath t))"
  using assms by (simp add: plain_ok_def findMissing_plain_def)

subsection \<open>The combined table\<close>

lemma dom_fold_update:
  "dom (map_of (fold (\<lambda>(_, p). AList.update (ImportPath p) p) ps acc)) =
     dom (map_of acc) \<union> (\<lambda>(_, p). ImportPath p) ` set ps"
  by (induction ps arbitrary: acc) (auto simp: update_conv' split: prod.splits)

lemma dom_fold_depsets:
  "dom (map_of (fold (\<lambda>(_, s). fold (\<lambda>(_, p). AList.update (ImportPath p) p) (Pkgs s)) dsm acc)) =
     dom (map_of acc) \<union> (\<Union>(_, s)\<in>set dsm. (\<lambda>(_, p). ImportPath p) ` set (Pkgs s))"
proof (induction dsm arbitrary: acc)
  case Nil
  show ?case by simp
next
  case (Cons d dsm)
  obtain r s where d: "d = (r, s)" by (cases d)
  show ?case by (simp add: d Cons.IH dom_fold_update Un_assoc)
qed

lemma dom_build_imports:
  "dom (map_of (build_imports dsm)) =
     insert ''C'' (\<Union>(_, s)\<in>set dsm. (\<lambda>(_, p). ImportPath p) ` set (Pkgs s))"
  by (simp add: build_imports_def update_conv' dom_fold_depsets)

lemma build_imports_C: "map_of (build_imports dsm) ''C'' = Some fakeC"
  by (simp add: build_imports_def update_conv')

section \<open>Properties of \<open>findMissing\<close>\<close>

text \<open>The equations that evaluate a walk on a given table.\<close>

lemmas walk_eval = findMissing_def findMissing_plain_def build_imports_def fakeC_def
  fn.simps fn_plain.simps push_def pop_def

text \<open>
  C8.  The cgo pseudo-import path \<open>"C"\<close> is never an element of the set that
  \<open>findMissing\<close> returns, whatever the target packages and the depsets are, also when
  no depset holds a package with that path.
\<close>

theorem findMissing_never_reports_C:
  "findMissing tgts dsm = Inr M \<Longrightarrow> ''C'' \<notin> M"
proof
  assume r: "findMissing tgts dsm = Inr M" and "''C'' \<in> M"
  with findMissing_Inr(1)[OF r]
  obtain t :: Pkg where "''C'' \<in> unavailable (build_imports dsm) (ImportPath t)" by auto
  then have "map_of (build_imports dsm) ''C'' = None" by (simp add: unavailable_def)
  then show False by (simp add: build_imports_C)
qed

theorem findMissing_never_reports_C_witness:
  "findMissing [\<lparr>Name = ''a'', ImportPath = ''A'', Imports = [''C'', ''D'']\<rparr>]
     [(''vendor/A'', \<lparr>Root = ''vendor/A'', Prefix = ''A'', Pkgs =
        [(''A'', \<lparr>Name = ''a'', ImportPath = ''A'', Imports = [''C'', ''D'']\<rparr>)]\<rparr>)]
     = Inr {''D''} \<and> ''C'' \<notin> {''D''}"
proof -
  have h: "findMissing [\<lparr>Name = ''a'', ImportPath = ''A'', Imports = [''C'', ''D'']\<rparr>]
     [(''vendor/A'', \<lparr>Root = ''vendor/A'', Prefix = ''A'', Pkgs =
        [(''A'', \<lparr>Name = ''a'', ImportPath = ''A'', Imports = [''C'', ''D'']\<rparr>)]\<rparr>)]
     = Inr {''D''}"
    by (simp add: walk_eval)
  from findMissing_never_reports_C[OF h] h show ?thesis by simp
qed

text \<open>
  C10.  Every import path in the set that \<open>findMissing\<close> returns is absent from the
  combined table built from the depsets: no package of any depset has it as its
  \<open>ImportPath\<close>.
\<close>

theorem findMissing_reports_only_absent:
  assumes "findMissing tgts dsm = Inr M" and "x \<in> M"
  shows "map_of (build_imports dsm) x = None \<and>
    (\<forall>(root, s)\<in>set dsm. \<forall>(k, p)\<in>set (Pkgs s). ImportPath p \<noteq> x)"
proof -
  from findMissing_Inr(1)[OF assms(1)] assms(2)
  obtain t :: Pkg where "x \<in> unavailable (build_imports dsm) (ImportPath t)" by auto
  then have n: "map_of (build_imports dsm) x = None" by (simp add: unavailable_def)
  then have "x \<notin> dom (map_of (build_imports dsm))" by auto
  then have u: "x \<notin> (\<Union>(_, s)\<in>set dsm. (\<lambda>(_, p). ImportPath p) ` set (Pkgs s))"
    by (simp add: dom_build_imports)
  have "ImportPath p \<noteq> x" if a: "(root, s) \<in> set dsm" "(k, p) \<in> set (Pkgs s)"
    for root s k p
  proof
    assume "ImportPath p = x"
    with a have "x \<in> (\<Union>(_, s)\<in>set dsm. (\<lambda>(_, p). ImportPath p) ` set (Pkgs s))"
      by force
    with u show False by simp
  qed
  then have "\<forall>(root, s)\<in>set dsm. \<forall>(k, p)\<in>set (Pkgs s). ImportPath p \<noteq> x"
    by auto
  with n show ?thesis by simp
qed

theorem findMissing_reports_only_absent_witness:
  "findMissing [\<lparr>Name = ''a'', ImportPath = ''A'', Imports = [''B'']\<rparr>]
     [(''vendor/A'', \<lparr>Root = ''vendor/A'', Prefix = ''A'', Pkgs =
        [(''A'', \<lparr>Name = ''a'', ImportPath = ''A'', Imports = [''B'']\<rparr>),
         (''A/b'', \<lparr>Name = ''b'', ImportPath = ''B'', Imports = [''D'']\<rparr>)]\<rparr>)]
     = Inr {''D''} \<and> ''D'' \<in> {''D''} \<and>
   map_of (build_imports
     [(''vendor/A'', \<lparr>Root = ''vendor/A'', Prefix = ''A'', Pkgs =
        [(''A'', \<lparr>Name = ''a'', ImportPath = ''A'', Imports = [''B'']\<rparr>),
         (''A/b'', \<lparr>Name = ''b'', ImportPath = ''B'', Imports = [''D'']\<rparr>)]\<rparr>)]) ''D'' = None"
proof -
  have h: "findMissing [\<lparr>Name = ''a'', ImportPath = ''A'', Imports = [''B'']\<rparr>]
     [(''vendor/A'', \<lparr>Root = ''vendor/A'', Prefix = ''A'', Pkgs =
        [(''A'', \<lparr>Name = ''a'', ImportPath = ''A'', Imports = [''B'']\<rparr>),
         (''A/b'', \<lparr>Name = ''b'', ImportPath = ''B'', Imports = [''D'']\<rparr>)]\<rparr>)]
     = Inr {''D''}"
    by (simp add: walk_eval)
  have m: "''D'' \<in> {''D''}" by simp
  from findMissing_reports_only_absent[OF h m] h show ?thesis by simp
qed

text \<open>
  C9.  \<open>findMissing\<close> with its \<open>checked\<close> memo returns a set exactly when the walk
  without the memo returns for every target taken alone, and that set is the union of
  the sets of those walks.
\<close>

theorem findMissing_memo_equiv:
  "findMissing tgts dsm = Inr M \<longleftrightarrow>
     (\<forall>t\<in>set tgts. \<exists>Mt. findMissing_plain t dsm = Inr Mt) \<and>
     M = \<Union>{Mt. \<exists>t\<in>set tgts. findMissing_plain t dsm = Inr Mt}"
proof -
  let ?im = "build_imports dsm"
  have fwd: "(\<forall>t\<in>set tgts. findMissing_plain t dsm = Inr (unavailable ?im (ImportPath t))) \<and>
      M' = \<Union>{Mt. \<exists>t\<in>set tgts. findMissing_plain t dsm = Inr Mt}"
    if r: "findMissing tgts dsm = Inr M'" for M'
  proof -
    from findMissing_Inr(2)[OF r]
    have p: "\<forall>t\<in>set tgts. findMissing_plain t dsm = Inr (unavailable ?im (ImportPath t))"
      by (simp add: findMissing_plain_ok)
    then have "{Mt. \<exists>t\<in>set tgts. findMissing_plain t dsm = Inr Mt} =
        (\<lambda>t. unavailable ?im (ImportPath t)) ` set tgts"
      by auto
    with findMissing_Inr(1)[OF r] p show ?thesis by simp
  qed
  show ?thesis
  proof
    assume "findMissing tgts dsm = Inr M"
    from fwd[OF this] show "(\<forall>t\<in>set tgts. \<exists>Mt. findMissing_plain t dsm = Inr Mt) \<and>
       M = \<Union>{Mt. \<exists>t\<in>set tgts. findMissing_plain t dsm = Inr Mt}" by simp
  next
    assume a: "(\<forall>t\<in>set tgts. \<exists>Mt. findMissing_plain t dsm = Inr Mt) \<and>
       M = \<Union>{Mt. \<exists>t\<in>set tgts. findMissing_plain t dsm = Inr Mt}"
    show "findMissing tgts dsm = Inr M"
    proof (cases "findMissing tgts dsm")
      case (Inl e)
      from findMissing_Inl(2)[OF Inl] a show ?thesis by auto
    next
      case (Inr M')
      from fwd[OF Inr] a show ?thesis using Inr by simp
    qed
  qed
qed

theorem findMissing_memo_equiv_witness:
  "findMissing
     [\<lparr>Name = ''a'', ImportPath = ''A'', Imports = [''S'', ''X'']\<rparr>,
      \<lparr>Name = ''b'', ImportPath = ''B'', Imports = [''S'']\<rparr>]
     [(''vendor'', \<lparr>Root = ''vendor'', Prefix = [], Pkgs =
        [(''A'', \<lparr>Name = ''a'', ImportPath = ''A'', Imports = [''S'', ''X'']\<rparr>),
         (''B'', \<lparr>Name = ''b'', ImportPath = ''B'', Imports = [''S'']\<rparr>),
         (''S'', \<lparr>Name = ''s'', ImportPath = ''S'', Imports = [''T'']\<rparr>),
         (''T'', \<lparr>Name = ''t'', ImportPath = ''T'', Imports = []\<rparr>)]\<rparr>)] = Inr {''X''} \<and>
   findMissing_plain \<lparr>Name = ''a'', ImportPath = ''A'', Imports = [''S'', ''X'']\<rparr>
     [(''vendor'', \<lparr>Root = ''vendor'', Prefix = [], Pkgs =
        [(''A'', \<lparr>Name = ''a'', ImportPath = ''A'', Imports = [''S'', ''X'']\<rparr>),
         (''B'', \<lparr>Name = ''b'', ImportPath = ''B'', Imports = [''S'']\<rparr>),
         (''S'', \<lparr>Name = ''s'', ImportPath = ''S'', Imports = [''T'']\<rparr>),
         (''T'', \<lparr>Name = ''t'', ImportPath = ''T'', Imports = []\<rparr>)]\<rparr>)] = Inr {''X''} \<and>
   findMissing_plain \<lparr>Name = ''b'', ImportPath = ''B'', Imports = [''S'']\<rparr>
     [(''vendor'', \<lparr>Root = ''vendor'', Prefix = [], Pkgs =
        [(''A'', \<lparr>Name = ''a'', ImportPath = ''A'', Imports = [''S'', ''X'']\<rparr>),
         (''B'', \<lparr>Name = ''b'', ImportPath = ''B'', Imports = [''S'']\<rparr>),
         (''S'', \<lparr>Name = ''s'', ImportPath = ''S'', Imports = [''T'']\<rparr>),
         (''T'', \<lparr>Name = ''t'', ImportPath = ''T'', Imports = []\<rparr>)]\<rparr>)] = Inr {}"
  (is "findMissing [?a, ?b] ?dsm = _ \<and> _ \<and> _")
proof -
  have a: "findMissing_plain ?a ?dsm = Inr {''X''}" by (simp add: walk_eval)
  have b: "findMissing_plain ?b ?dsm = Inr {}" by (simp add: walk_eval)
  have "{Mt. \<exists>t\<in>set [?a, ?b]. findMissing_plain t ?dsm = Inr Mt} = {{''X''}, {}}"
    using a b by auto
  then have "{''X''} = \<Union>{Mt. \<exists>t\<in>set [?a, ?b]. findMissing_plain t ?dsm = Inr Mt}"
    by simp
  moreover have "\<forall>t\<in>set [?a, ?b]. \<exists>Mt. findMissing_plain t ?dsm = Inr Mt"
    using a b by simp
  ultimately have "findMissing [?a, ?b] ?dsm = Inr {''X''}"
    using findMissing_memo_equiv[of "[?a, ?b]" ?dsm "{''X''}"] by simp
  with a b show ?thesis by simp
qed

text \<open>
  C5 (amended).  \<open>findMissing\<close> aborts with the import-loop panic exactly when some
  target reaches, along imports of packages of the combined table (self-imports are
  skipped), a path that lies on a cycle of such imports; otherwise it returns a set.
  It is a total function, so it never recurses for ever.  A cycle that no target
  reaches does not abort it.
\<close>

theorem findMissing_import_loop:
  "(if \<exists>t\<in>set tgts. \<exists>y. (ImportPath t, y) \<in> (edges (build_imports dsm))\<^sup>* \<and>
          (y, y) \<in> (edges (build_imports dsm))\<^sup>+
    then \<exists>v S. findMissing tgts dsm = Inl (ImportLoop v S)
    else \<exists>M. findMissing tgts dsm = Inr M)"
proof -
  let ?im = "build_imports dsm"
  have c: "(\<exists>t\<in>set tgts. \<exists>y. (ImportPath t, y) \<in> (edges ?im)\<^sup>* \<and> (y, y) \<in> (edges ?im)\<^sup>+)
      \<longleftrightarrow> (\<exists>t\<in>set tgts. \<not> cycle_free ?im (ImportPath t))"
    by (simp add: cycle_free_def)
  show ?thesis
  proof (cases "findMissing tgts dsm")
    case (Inl e)
    from findMissing_Inl(1,3)[OF Inl] Inl c show ?thesis by auto
  next
    case (Inr M)
    from findMissing_Inr(2)[OF Inr] have "\<not> (\<exists>t\<in>set tgts. \<not> cycle_free ?im (ImportPath t))"
      by simp
    with c Inr show ?thesis by simp
  qed
qed

theorem findMissing_import_loop_witness:
  "(''A'', ''A'') \<in> (edges (build_imports
      [(''vendor'', \<lparr>Root = ''vendor'', Prefix = [], Pkgs =
        [(''A'', \<lparr>Name = ''a'', ImportPath = ''A'', Imports = [''B'']\<rparr>),
         (''B'', \<lparr>Name = ''b'', ImportPath = ''B'', Imports = [''A'']\<rparr>)]\<rparr>)]))\<^sup>+ \<and>
   findMissing [\<lparr>Name = ''a'', ImportPath = ''A'', Imports = [''B'']\<rparr>]
      [(''vendor'', \<lparr>Root = ''vendor'', Prefix = [], Pkgs =
        [(''A'', \<lparr>Name = ''a'', ImportPath = ''A'', Imports = [''B'']\<rparr>),
         (''B'', \<lparr>Name = ''b'', ImportPath = ''B'', Imports = [''A'']\<rparr>)]\<rparr>)]
     = Inl (ImportLoop ''A'' {''A'', ''B''})"
  (is "(_, _) \<in> (edges (build_imports ?dsm))\<^sup>+ \<and> findMissing [?a] ?dsm = _")
proof -
  have ab: "(''A'', ''B'') \<in> edges (build_imports ?dsm)"
    by (simp add: edges_def build_imports_def)
  have ba: "(''B'', ''A'') \<in> edges (build_imports ?dsm)"
    by (simp add: edges_def build_imports_def)
  from ab ba have cyc: "(''A'', ''A'') \<in> (edges (build_imports ?dsm))\<^sup>+"
    by (rule trancl_into_trancl[OF r_into_trancl])
  then have "\<exists>t\<in>set [?a]. \<exists>y. (ImportPath t, y) \<in> (edges (build_imports ?dsm))\<^sup>* \<and>
      (y, y) \<in> (edges (build_imports ?dsm))\<^sup>+"
    by auto
  with findMissing_import_loop[of "[?a]" ?dsm]
  have "\<exists>v S. findMissing [?a] ?dsm = Inl (ImportLoop v S)" by simp
  moreover have "findMissing [?a] ?dsm = Inl (ImportLoop ''A'' {''A'', ''B''})"
    by (simp add: walk_eval insert_commute)
  ultimately show ?thesis using cyc by simp
qed

text \<open>
  The claim as stated fails: with \<open>A\<close> and \<open>B\<close> importing each other, both present, and
  the only target \<open>D\<close> importing nothing, \<open>findMissing\<close> returns the empty set.
\<close>

theorem findMissing_unreached_cycle:
  "(''A'', ''A'') \<in> (edges (build_imports
      [(''vendor'', \<lparr>Root = ''vendor'', Prefix = [], Pkgs =
        [(''A'', \<lparr>Name = ''a'', ImportPath = ''A'', Imports = [''B'']\<rparr>),
         (''B'', \<lparr>Name = ''b'', ImportPath = ''B'', Imports = [''A'']\<rparr>),
         (''D'', \<lparr>Name = ''d'', ImportPath = ''D'', Imports = []\<rparr>)]\<rparr>)]))\<^sup>+ \<and>
   findMissing [\<lparr>Name = ''d'', ImportPath = ''D'', Imports = []\<rparr>]
      [(''vendor'', \<lparr>Root = ''vendor'', Prefix = [], Pkgs =
        [(''A'', \<lparr>Name = ''a'', ImportPath = ''A'', Imports = [''B'']\<rparr>),
         (''B'', \<lparr>Name = ''b'', ImportPath = ''B'', Imports = [''A'']\<rparr>),
         (''D'', \<lparr>Name = ''d'', ImportPath = ''D'', Imports = []\<rparr>)]\<rparr>)]
     = Inr {}"
  (is "(_, _) \<in> (edges (build_imports ?dsm))\<^sup>+ \<and> findMissing [?d] ?dsm = _")
proof -
  have ab: "(''A'', ''B'') \<in> edges (build_imports ?dsm)"
    by (simp add: edges_def build_imports_def)
  have ba: "(''B'', ''A'') \<in> edges (build_imports ?dsm)"
    by (simp add: edges_def build_imports_def)
  from ab ba have cyc: "(''A'', ''A'') \<in> (edges (build_imports ?dsm))\<^sup>+"
    by (rule trancl_into_trancl[OF r_into_trancl])
  moreover have "findMissing [?d] ?dsm = Inr {}"
    by (simp add: walk_eval)
  ultimately show ?thesis by simp
qed

text \<open>
  C6 (amended).  When \<open>findMissing\<close> returns, it returns exactly the paths that a
  target reaches along imports of packages of the combined table and that the table
  lacks.  For \<open>A\<close> importing \<open>B\<close>, \<open>B\<close> importing nothing, both present, the result for
  target \<open>A\<close> is empty.  For \<open>A\<close> importing \<open>B\<close>, \<open>B\<close> importing \<open>C\<close>, only \<open>A\<close> and \<open>B\<close>
  present, the result for target \<open>A\<close> is \<open>{C}\<close> provided none of the three paths is the
  cgo pseudo-path \<open>"C"\<close>, which the table always contains.
\<close>

theorem findMissing_unavailable:
  "(findMissing tgts dsm = Inr M \<longrightarrow>
      M = {y. \<exists>t\<in>set tgts. (ImportPath t, y) \<in> (edges (build_imports dsm))\<^sup>* \<and>
                map_of (build_imports dsm) y = None}) \<and>
   findMissing [\<lparr>Name = na, ImportPath = a, Imports = [b]\<rparr>]
     [(root, \<lparr>Root = root, Prefix = pre, Pkgs =
        [(ka, \<lparr>Name = na, ImportPath = a, Imports = [b]\<rparr>),
         (kb, \<lparr>Name = nb, ImportPath = b, Imports = []\<rparr>)]\<rparr>)] = Inr {} \<and>
   (c \<notin> {a, b} \<and> ''C'' \<notin> {a, b, c} \<longrightarrow>
    findMissing [\<lparr>Name = na, ImportPath = a, Imports = [b]\<rparr>]
      [(root, \<lparr>Root = root, Prefix = pre, Pkgs =
         [(ka, \<lparr>Name = na, ImportPath = a, Imports = [b]\<rparr>),
          (kb, \<lparr>Name = nb, ImportPath = b, Imports = [c]\<rparr>)]\<rparr>)] = Inr {c})"
proof (intro conjI impI)
  assume r: "findMissing tgts dsm = Inr M"
  from findMissing_Inr(1)[OF r]
  show "M = {y. \<exists>t\<in>set tgts. (ImportPath t, y) \<in> (edges (build_imports dsm))\<^sup>* \<and>
                map_of (build_imports dsm) y = None}"
    by (auto simp: unavailable_def)
next
  show "findMissing [\<lparr>Name = na, ImportPath = a, Imports = [b]\<rparr>]
     [(root, \<lparr>Root = root, Prefix = pre, Pkgs =
        [(ka, \<lparr>Name = na, ImportPath = a, Imports = [b]\<rparr>),
         (kb, \<lparr>Name = nb, ImportPath = b, Imports = []\<rparr>)]\<rparr>)] = Inr {}"
    by (simp add: walk_eval)
next
  assume "c \<notin> {a, b} \<and> ''C'' \<notin> {a, b, c}"
  then have "c \<noteq> a" "c \<noteq> b" "a \<noteq> ''C''" "b \<noteq> ''C''" "c \<noteq> ''C''" by auto
  then show "findMissing [\<lparr>Name = na, ImportPath = a, Imports = [b]\<rparr>]
      [(root, \<lparr>Root = root, Prefix = pre, Pkgs =
         [(ka, \<lparr>Name = na, ImportPath = a, Imports = [b]\<rparr>),
          (kb, \<lparr>Name = nb, ImportPath = b, Imports = [c]\<rparr>)]\<rparr>)] = Inr {c}"
    by (simp add: walk_eval)
qed

theorem findMissing_unavailable_witness:
  "findMissing [\<lparr>Name = ''a'', ImportPath = ''A'', Imports = [''B'']\<rparr>]
      [(''vendor'', \<lparr>Root = ''vendor'', Prefix = [], Pkgs =
         [(''A'', \<lparr>Name = ''a'', ImportPath = ''A'', Imports = [''B'']\<rparr>),
          (''B'', \<lparr>Name = ''b'', ImportPath = ''B'', Imports = [''D'']\<rparr>)]\<rparr>)] = Inr {''D''}"
  using findMissing_unavailable[of "[]" "[]" "{}" "''a''" "''A''" "''B''" "''vendor''" "[]"
      "''A''" "''B''" "''b''" "''D''"]
  by simp

text \<open>
  The claim as stated fails for the import path spelled \<open>"C"\<close>: it is never missing.
\<close>

theorem findMissing_literal_C:
  "findMissing [\<lparr>Name = ''a'', ImportPath = ''A'', Imports = [''B'']\<rparr>]
      [(''vendor'', \<lparr>Root = ''vendor'', Prefix = [], Pkgs =
         [(''A'', \<lparr>Name = ''a'', ImportPath = ''A'', Imports = [''B'']\<rparr>),
          (''B'', \<lparr>Name = ''b'', ImportPath = ''B'', Imports = [''C'']\<rparr>)]\<rparr>)] = Inr {} \<and>
   findMissing [\<lparr>Name = ''a'', ImportPath = ''A'', Imports = [''B'']\<rparr>]
      [(''vendor'', \<lparr>Root = ''vendor'', Prefix = [], Pkgs =
         [(''A'', \<lparr>Name = ''a'', ImportPath = ''A'', Imports = [''B'']\<rparr>),
          (''B'', \<lparr>Name = ''b'', ImportPath = ''B'', Imports = [''C'']\<rparr>)]\<rparr>)] \<noteq> Inr {''C''}"
  by (simp add: walk_eval)

section \<open>Properties of \<open>fetch\<close>\<close>

text \<open>The equations that evaluate \<open>fetch\<close> on the test double.\<close>

lemmas fetch_eval = fetch.simps fetch_loop.simps fetch_step_def fetch_resolve_def
  fetch_vendor_def call_def stripscheme_def HasImportpath_def AddDependency_def
  sorted_keys_def pkgs_def roots_def Let_def

lemmas demo_eval = demo_env_def demo_world_def demo_repo_def demo_tree_def join_def
  vendored_x_def vendored_world_def

subsection \<open>The stages of one fetch\<close>

lemma fetch_resolve_frame:
  assumes "fetch_resolve env path w = (r, w')"
  shows "manifest_file w' = manifest_file w" and "vendor_tree w' = vendor_tree w"
    and "branch w' = branch w" and "tag w' = tag w" and "revision w' = revision w"
    and "insecure w' = insecure w"
  using assms
  by (auto simp: fetch_resolve_def Let_def call_def split: sum.splits prod.splits if_splits)

lemma fetch_resolve_Inr:
  assumes "fetch_resolve env path w = (Inr (m, repo, extra, p), w')"
  shows "manifest_file w = Inr m" and "stripscheme env path = Inr p"
    and "\<not> HasImportpath m p"
    and "calls w' = calls w @ [ReadManifest_call, DeduceRemoteRepo_call path (insecure w)]"
  using assms
  by (auto simp: fetch_resolve_def Let_def call_def split: sum.splits prod.splits if_splits)

lemma fetch_vendor_CopypathErr:
  assumes "fetch_vendor env global m repo extra p w = (Inl (CopypathErr e), w')"
  shows "manifest_file w' = manifest_file w" and "vendor_tree w' = vendor_tree w"
    and "\<exists>wc. Checkout repo (branch w) (tag w) (revision w) = Inr wc \<and>
          calls w' = calls w @
            [Checkout_call (URL repo) (branch w) (tag w) (revision w),
             Revision_call (Dir wc), Branch_call (Dir wc),
             Copypath_call (Join env (vendorDir env global) p) (Join env (Dir wc) extra)]"
  using assms
  by (auto simp: fetch_vendor_def Let_def call_def
      split: sum.splits prod.splits if_splits option.splits)

subsection \<open>Copy before commit\<close>

text \<open>
  C3.  If the copy of a fetch step fails, the manifest file afterwards is the one the
  step found, it holds no Dependency for the stripped import path, and the step made no
  call of \<open>WriteManifest\<close>: the write comes only after a successful copy.
\<close>

theorem copy_failure_leaves_manifest:
  assumes "fetch_step env path global w = (Inl (CopypathErr e), w')"
  shows "manifest_file w' = manifest_file w \<and>
    (\<exists>m p. manifest_file w' = Inr m \<and> stripscheme env path = Inr p \<and>
       (\<forall>d\<in>set (Dependencies m). Importpath d \<noteq> p)) \<and>
    (\<forall>m. WriteManifest_call m \<notin> set (drop (length (calls w)) (calls w')))"
proof -
  from assms obtain m repo extra p w1 where
    r: "fetch_resolve env path w = (Inr (m, repo, extra, p), w1)" and
    v: "fetch_vendor env global m repo extra p w1 = (Inl (CopypathErr e), w')"
    by (auto simp: fetch_step_def fetch_resolve_def Let_def
        split: sum.splits prod.splits if_splits)
  note r1 = fetch_resolve_frame(1)[OF r] and r2 = fetch_resolve_Inr[OF r]
    and v1 = fetch_vendor_CopypathErr[OF v]
  from r1 v1(1) have same: "manifest_file w' = manifest_file w" by simp
  from r2(3) have "\<forall>d\<in>set (Dependencies m). Importpath d \<noteq> p"
    by (auto simp: HasImportpath_def)
  with same r2(1,2) have
    absent: "\<exists>m p. manifest_file w' = Inr m \<and> stripscheme env path = Inr p \<and>
       (\<forall>d\<in>set (Dependencies m). Importpath d \<noteq> p)"
    by auto
  from v1(3) r2(4) have "\<forall>m. WriteManifest_call m \<notin> set (drop (length (calls w)) (calls w'))"
    by auto
  with same absent show ?thesis by simp
qed

theorem copy_failure_leaves_manifest_witness:
  "fetch_step copy_fails ''x'' False demo_world =
     (Inl (CopypathErr ''no space left on device''),
      demo_world\<lparr>calls :=
        [ReadManifest_call, DeduceRemoteRepo_call ''x'' False,
         Checkout_call ''https://x'' ''dev'' ''v1.0'' [], Revision_call ''/tmp/x'',
         Branch_call ''/tmp/x'', Copypath_call ''vendor/x'' ''/tmp/x'']\<rparr>) \<and>
   manifest_file (demo_world\<lparr>calls :=
        [ReadManifest_call, DeduceRemoteRepo_call ''x'' False,
         Checkout_call ''https://x'' ''dev'' ''v1.0'' [], Revision_call ''/tmp/x'',
         Branch_call ''/tmp/x'', Copypath_call ''vendor/x'' ''/tmp/x'']\<rparr>) =
     Inr \<lparr>Dependencies = []\<rparr>"
proof -
  have h: "fetch_step copy_fails ''x'' False demo_world =
     (Inl (CopypathErr ''no space left on device''),
      demo_world\<lparr>calls :=
        [ReadManifest_call, DeduceRemoteRepo_call ''x'' False,
         Checkout_call ''https://x'' ''dev'' ''v1.0'' [], Revision_call ''/tmp/x'',
         Branch_call ''/tmp/x'', Copypath_call ''vendor/x'' ''/tmp/x'']\<rparr>)"
    by (simp add: fetch_eval demo_eval copy_fails_def)
  from copy_failure_leaves_manifest[OF h] h show ?thesis
    by (simp add: demo_world_def)
qed

subsection \<open>Fetching what is already vendored\<close>

text \<open>
  C4 (amended).  For a fetch of an import path whose stripped form is in the manifest
  that \<open>ReadManifest\<close> returns, the manifest file and the vendor tree are unchanged, and
  the result is the sentinel \<open>AlreadyErr\<close> provided \<open>DeduceRemoteRepo\<close> succeeds: the
  code deduces the repository (line 86) before it looks into the manifest (line 95),
  so when the deduction fails its error is returned instead.
\<close>

theorem fetch_already_vendored:
  assumes "manifest_file w = Inr m" and "stripscheme env path = Inr p"
    and "HasImportpath m p"
  shows "\<exists>w'. fetch fuel env path recurse global w =
      Some (Inl (case DeduceRemoteRepo env (call ReadManifest_call w) path (insecure w) of
                   Inl msg \<Rightarrow> DeduceRemoteRepoErr msg
                 | Inr _ \<Rightarrow> AlreadyErr), w') \<and>
    manifest_file w' = manifest_file w \<and> vendor_tree w' = vendor_tree w"
proof -
  obtain r w1 where r: "fetch_resolve env path w = (r, w1)" by (cases "fetch_resolve env path w")
  from r assms have "r = Inl (case DeduceRemoteRepo env (call ReadManifest_call w) path (insecure w) of
                   Inl msg \<Rightarrow> DeduceRemoteRepoErr msg
                 | Inr _ \<Rightarrow> AlreadyErr)"
    by (auto simp: fetch_resolve_def Let_def call_def split: sum.splits prod.splits if_splits)
  with r have "fetch fuel env path recurse global w =
      Some (Inl (case DeduceRemoteRepo env (call ReadManifest_call w) path (insecure w) of
                   Inl msg \<Rightarrow> DeduceRemoteRepoErr msg
                 | Inr _ \<Rightarrow> AlreadyErr), w1)"
    by (simp add: fetch.simps fetch_step_def)
  with fetch_resolve_frame(1,2)[OF r] show ?thesis by simp
qed

theorem fetch_already_vendored_witness:
  "HasImportpath vendored_x ''x'' \<and>
   fetch 0 demo_env ''x'' True False vendored_world =
     Some (Inl AlreadyErr, vendored_world\<lparr>calls :=
       [ReadManifest_call, DeduceRemoteRepo_call ''x'' False,
        Printf ''x is already vendored'']\<rparr>)"
proof -
  have h1: "manifest_file vendored_world = Inr vendored_x"
    by (simp add: vendored_world_def)
  have h2: "stripscheme demo_env ''x'' = Inr ''x''"
    by (simp add: stripscheme_def demo_env_def)
  have h3: "HasImportpath vendored_x ''x''"
    by (simp add: HasImportpath_def vendored_x_def)
  from fetch_already_vendored[OF h1 h2 h3, of 0 True False]
  obtain w' where "fetch 0 demo_env ''x'' True False vendored_world = Some (Inl AlreadyErr, w')"
    by (auto simp: demo_env_def)
  moreover have "fetch 0 demo_env ''x'' True False vendored_world =
     Some (Inl AlreadyErr, vendored_world\<lparr>calls :=
       [ReadManifest_call, DeduceRemoteRepo_call ''x'' False,
        Printf ''x is already vendored'']\<rparr>)"
    by (simp add: fetch_eval demo_eval)
  ultimately show ?thesis using h3 by simp
qed

text \<open>
  The claim as stated fails: with \<open>x\<close> in the manifest and a repository deduction that
  fails, \<open>fetch\<close> returns the error of the deduction, not the sentinel.
\<close>

theorem fetch_already_vendored_unresolvable:
  "manifest_file vendored_world = Inr vendored_x \<and>
   stripscheme unresolvable ''x'' = Inr ''x'' \<and>
   HasImportpath vendored_x ''x'' \<and>
   fetch 0 unresolvable ''x'' True False vendored_world =
     Some (Inl (DeduceRemoteRepoErr ''unable to determine remote''),
       vendored_world\<lparr>calls := [ReadManifest_call, DeduceRemoteRepo_call ''x'' False]\<rparr>)"
  by (simp add: fetch_eval demo_eval unresolvable_def)

subsection \<open>The order of recursive fetches\<close>

text \<open>
  C7.  An iteration of the loop whose missing set is not empty calls
  \<open>fetch(pkg, false, global)\<close> for the least import path of the missing set in the
  lexicographic order of strings, and carries on with what that call returns.  With
  \<open>zzz/pkg\<close> and \<open>aaa/pkg\<close> missing, \<open>aaa/pkg\<close> is fetched first.
\<close>

theorem fetch_loop_fetches_least:
  assumes "manifest_file w = Inr m"
    and "LoadPaths env (call ReadManifest_call w) (roots env global m) = Inr dsm"
    and "map_of dsm (Join env (vendorDir env global) path) = Some ds"
    and "findMissing (pkgs (Pkgs ds)) dsm = Inr miss"
    and "miss \<noteq> {}"
  shows "Min miss \<in> miss \<and> (\<forall>x\<in>miss. Min miss \<le> x) \<and>
     fetch_loop (Suc fuel) env path global w =
       (case fetch fuel env (Min miss) False global
               (call (Printf (''fetching recursive dependency '' @ Min miss))
                 (call (LoadPaths_call (roots env global m)) (call ReadManifest_call w))) of
          None \<Rightarrow> None
        | Some (Inl err, w4) \<Rightarrow>
            if err = AlreadyErr then Some (Inr (), w4) else Some (Inl err, w4)
        | Some (Inr u, w4) \<Rightarrow> fetch_loop fuel env path global w4)"
proof -
  from assms(4) have fin: "finite miss" by (rule findMissing_finite)
  with assms(5) have c: "card miss \<noteq> 0" by simp
  from fin assms(5) have hd: "sorted_keys miss ! 0 = Min miss"
    by (simp add: sorted_keys_def sorted_list_of_set_nonempty)
  from fin assms(5) have least: "Min miss \<in> miss" "\<forall>x\<in>miss. Min miss \<le> x"
    by simp_all
  have "manifest_file (call ReadManifest_call w) = Inr m"
    using assms(1) by (simp add: call_def)
  with assms(2,3,4) c hd have "fetch_loop (Suc fuel) env path global w =
       (case fetch fuel env (Min miss) False global
               (call (Printf (''fetching recursive dependency '' @ Min miss))
                 (call (LoadPaths_call (roots env global m)) (call ReadManifest_call w))) of
          None \<Rightarrow> None
        | Some (Inl err, w4) \<Rightarrow>
            if err = AlreadyErr then Some (Inr (), w4) else Some (Inl err, w4)
        | Some (Inr u, w4) \<Rightarrow> fetch_loop fuel env path global w4)"
    by (simp add: fetch_loop.simps Let_def)
  with least show ?thesis by simp
qed

theorem fetch_loop_fetches_least_witness:
  "Min {''zzz/pkg'', ''aaa/pkg''} = ''aaa/pkg'' \<and>
   map_option (\<lambda>(r, w). (r, DeduceRemoteRepo_calls w))
     (fetch_loop 3 demo_env ''x'' False vendored_world) =
   Some (Inr (), [DeduceRemoteRepo_call ''aaa/pkg'' False,
                  DeduceRemoteRepo_call ''zzz/pkg'' False])"
proof -
  let ?dsm = "map demo_tree (roots demo_env False vendored_x)"
  have h1: "manifest_file vendored_world = Inr vendored_x"
    by (simp add: vendored_world_def)
  have h2: "LoadPaths demo_env (call ReadManifest_call vendored_world)
      (roots demo_env False vendored_x) = Inr ?dsm"
    by (simp add: demo_env_def)
  have h3: "map_of ?dsm (Join demo_env (vendorDir demo_env False) ''x'') =
      Some (snd (demo_tree (''vendor/x'', ''x'')))"
    by (simp add: demo_eval roots_def)
  have h4: "findMissing (pkgs (Pkgs (snd (demo_tree (''vendor/x'', ''x''))))) ?dsm =
      Inr {''aaa/pkg'', ''zzz/pkg''}"
    by (simp add: demo_eval roots_def pkgs_def walk_eval)
  have h5: "{''aaa/pkg'', ''zzz/pkg''} \<noteq> ({} :: string set)" by simp
  from fetch_loop_fetches_least[OF h1 h2 h3 h4 h5, of 2]
  have "Min {''aaa/pkg'', ''zzz/pkg''} \<in> {''aaa/pkg'', ''zzz/pkg''}"
    and "Min {''aaa/pkg'', ''zzz/pkg''} \<le> ''aaa/pkg''" by simp_all
  then have "Min {''aaa/pkg'', ''zzz/pkg''} = ''aaa/pkg''" by auto
  then have m: "Min {''zzz/pkg'', ''aaa/pkg''} = ''aaa/pkg''" by (simp add: insert_commute)
  have "map_option (\<lambda>(r, w). (r, DeduceRemoteRepo_calls w))
     (fetch_loop 3 demo_env ''x'' False vendored_world) =
   Some (Inr (), [DeduceRemoteRepo_call ''aaa/pkg'' False,
                  DeduceRemoteRepo_call ''zzz/pkg'' False])"
    by code_simp
  with m show ?thesis by simp
qed

subsection \<open>Selectors of the recursive fetches\<close>

text \<open>
  C1.  A run of \<open>fetch\<close> with recursion, started with \<open>-branch dev -tag v1.0\<close>: the
  recursive fetches of \<open>aaa/pkg\<close> and \<open>zzz/pkg\<close> call \<open>Checkout\<close> with an empty tag and
  revision but with the branch \<open>dev\<close> of the request, since line 149 clears the local
  \<open>branch\<close> of line 111 and not the package-level variable that line 100 reads.
\<close>

theorem recursive_fetch_keeps_branch:
  "map_option (\<lambda>(r, w). (r, Checkout_calls w))
     (fetch 3 demo_env ''x'' True False demo_world) =
   Some (Inr (),
     [Checkout_call ''https://x'' ''dev'' ''v1.0'' [],
      Checkout_call ''https://aaa/pkg'' ''dev'' [] [],
      Checkout_call ''https://zzz/pkg'' ''dev'' [] []])"
  by code_simp

subsection \<open>The working copy on failure\<close>

text \<open>
  C2.  A fetch whose manifest write fails: the working copy was checked out, and the
  run returns the error of the write without any call of \<open>Destroy\<close>, which only line
  139 makes, after every earlier step has succeeded.
\<close>

theorem failed_write_skips_Destroy:
  "fetch 0 write_fails ''x'' False False demo_world =
     Some (Inl (WriteManifestErr ''permission denied''),
       demo_world\<lparr>vendor_tree := [(''vendor/x'', ''/tmp/x'')],
         calls :=
           [ReadManifest_call, DeduceRemoteRepo_call ''x'' False,
            Checkout_call ''https://x'' ''dev'' ''v1.0'' [], Revision_call ''/tmp/x'',
            Branch_call ''/tmp/x'', Copypath_call ''vendor/x'' ''/tmp/x'',
            WriteManifest_call vendored_x]\<rparr>)"
  by (simp add: fetch_eval demo_eval write_fails_def)

end
